theory Spec2Isabelle
  imports Main "HOL-Library.Word"
begin

unbundle bit_operations_syntax

section \<open>Ranges (glib/gindexset.c, GRange)\<close>

text \<open>
  \<open>guint\<close> is a 32-bit unsigned integer: additions and subtractions wrap around.
  A \<open>GRange\<close> is the struct of the header, \<open>{ guint location; guint length; }\<close>; the
  field \<open>length\<close> is written \<open>length'\<close> here, the plain name being the length of a list.
\<close>

type_synonym guint = "32 word"

record GRange =
  location :: guint
  length' :: guint

definition g_range_init :: "guint \<Rightarrow> guint \<Rightarrow> GRange" where
  "g_range_init loc len = \<lparr>location = loc, length' = len\<rparr>"

definition g_range_contains_location :: "GRange \<Rightarrow> guint \<Rightarrow> bool" where
  "g_range_contains_location rng loc \<longleftrightarrow>
     loc \<ge> location rng \<and> loc < location rng + length' rng"

definition g_range_get_max :: "GRange \<Rightarrow> guint" where
  "g_range_get_max rng = location rng + length' rng"

section \<open>The index set\<close>

text \<open>
  \<open>G_MAXINT\<close> is the largest value of a \<open>gint\<close>, a 32-bit signed integer; the macro is
  declared in GLib's type headers, outside the files at hand. Every comparison of the
  source that involves it has a \<open>guint\<close> on the other side, so it is read as a \<open>guint\<close>.
\<close>

definition G_MAXINT :: guint where
  "G_MAXINT = 0x7FFFFFFF"

definition G_INDEX_SET_NOT_FOUND :: guint where
  "G_INDEX_SET_NOT_FOUND = G_MAXINT"

text \<open>
  The struct \<open>_GIndexSet\<close>. The field \<open>ranges\<close> is a pointer to a \<open>GArray\<close> of
  \<open>GRange\<close>: \<open>None\<close> is the \<open>NULL\<close> pointer of a set that was allocated and never
  initialized, \<open>Some rs\<close> an array with the elements \<open>rs\<close>. Positions in the array
  are natural numbers: a \<open>GArray\<close> of 8-byte elements holds fewer than \<open>2 ^ 29\<close> of
  them, so that no position computed below leaves the range of a \<open>guint\<close>.
\<close>

record GIndexSet =
  ref_count :: int
  ranges :: "GRange list option"
  is_mutable :: bool

text \<open>
  What a call can do other than return normally: \<open>g_return_if_fail\<close> logs the failed
  precondition and returns at once, leaving the set as it was; \<open>g_assert\<close> aborts the
  program; reading through a \<open>NULL\<close> array pointer crashes it; reading through a
  pointer into an array after an insertion into that array, which may have moved it,
  is undefined.
\<close>

datatype failure =
  Precondition_Failed | Assertion_Failed | Null_Dereference | Dangling_Read

subsection \<open>Position lookup: \<open>g_index_set_get_position\<close>\<close>

text \<open>
  The binary search \<open>for (pos = upper / 2; upper != lower; pos = (upper + lower) / 2)\<close>.
  With \<open>lower = 0\<close> at the start, \<open>pos\<close> is \<open>(upper + lower) / 2\<close> at every test of the
  loop condition, and after a \<open>break\<close> it keeps the value it had in the body. The loop
  is written twice. \<open>position_search_loop\<close> is the loop as the source has it, with the
  test \<open>upper != lower\<close>; it returns \<open>None\<close> where the loop would not end.
  \<open>position_search\<close> also leaves the loop when \<open>upper < lower\<close>, which makes it total.
  The loop starts with \<open>lower \<le> upper\<close> and both updates keep \<open>lower \<le> pos < upper\<close>,
  and from every such state the two agree (\<open>position_search_loop_returns\<close> below); the
  read \<open>rs ! pos\<close> is inside the array there.
\<close>

partial_function (option) position_search_loop ::
    "GRange list \<Rightarrow> guint \<Rightarrow> nat \<Rightarrow> nat \<Rightarrow> nat option" where
  "position_search_loop rs idx lower upper =
     (let pos = (upper + lower) div 2 in
      if upper = lower then Some pos
      else let rng = rs ! pos in
        if idx < location rng then position_search_loop rs idx lower pos
        else if idx > location rng + length' rng
          then position_search_loop rs idx (pos + 1) upper
        else Some pos)"

function position_search :: "GRange list \<Rightarrow> guint \<Rightarrow> nat \<Rightarrow> nat \<Rightarrow> nat" where
  "position_search rs idx lower upper =
     (let pos = (upper + lower) div 2 in
      if upper \<le> lower then pos
      else let rng = rs ! pos in
        if idx < location rng then position_search rs idx lower pos
        else if idx > location rng + length' rng
          then position_search rs idx (pos + 1) upper
        else pos)"
  by pat_completeness auto
termination
  by (relation "measure (\<lambda>(rs, idx, lower, upper). upper - lower)") auto

text \<open>The second loop: skip the ranges that end at or before the index.\<close>

function skip_smaller :: "GRange list \<Rightarrow> guint \<Rightarrow> nat \<Rightarrow> nat" where
  "skip_smaller rs idx pos =
     (if pos < length rs \<and> idx \<ge> g_range_get_max (rs ! pos)
      then skip_smaller rs idx (pos + 1) else pos)"
  by pat_completeness auto
termination
  by (relation "measure (\<lambda>(rs, idx, pos). length rs - pos)") auto

definition g_index_set_get_position :: "GRange list \<Rightarrow> guint \<Rightarrow> nat" where
  "g_index_set_get_position rs idx =
     skip_smaller rs idx (position_search rs idx 0 (length rs))"

subsection \<open>Initialization\<close>

definition g_index_set_alloc :: GIndexSet where
  "g_index_set_alloc = \<lparr>ref_count = 1, ranges = None, is_mutable = True\<rparr>"

definition g_index_set_clear_ranges :: "GIndexSet \<Rightarrow> GIndexSet" where
  "g_index_set_clear_ranges index_set = index_set\<lparr>ranges := Some [], is_mutable := True\<rparr>"

definition g_index_set_init :: "GIndexSet \<Rightarrow> GIndexSet" where
  "g_index_set_init index_set = g_index_set_clear_ranges index_set"

definition g_index_set_make_immutable :: "GIndexSet \<Rightarrow> GIndexSet" where
  "g_index_set_make_immutable index_set = index_set\<lparr>is_mutable := False\<rparr>"

definition g_index_set_is_mutable :: "GIndexSet \<Rightarrow> bool" where
  "g_index_set_is_mutable index_set = is_mutable index_set"

definition g_index_set_init_empty :: "GIndexSet \<Rightarrow> GIndexSet" where
  "g_index_set_init_empty index_set =
     g_index_set_make_immutable (g_index_set_clear_ranges index_set)"

subsection \<open>Insertion and coalescing: \<open>g_index_set_add_range_internal\<close>\<close>

text \<open>
  \<open>g_array_insert_val\<close> and \<open>g_array_remove_index\<close> on the elements of the array;
  removing at a position outside the array fails its precondition and changes nothing.
  Every insertion below is at a position up to the length of the array. In the two
  coalescing loops \<open>pos\<close> is the position of an element of the array, so that the reads
  at \<open>pos - 1\<close> (under \<open>pos > 0\<close>), at \<open>pos + 1\<close> (under \<open>pos + 1 < len\<close>) and at \<open>pos\<close>
  are inside the array, where \<open>g_index_set_get_range\<close> returns the element.
\<close>

definition g_array_insert_val :: "'a list \<Rightarrow> nat \<Rightarrow> 'a \<Rightarrow> 'a list" where
  "g_array_insert_val xs pos x = take pos xs @ x # drop pos xs"

definition g_array_remove_index :: "'a list \<Rightarrow> nat \<Rightarrow> 'a list" where
  "g_array_remove_index xs pos = (if pos < length xs then take pos xs @ drop (Suc pos) xs else xs)"

text \<open>
  The \<open>g_index_set_ensure_ranges\<close> check that ends an insertion: \<open>True\<close> when every
  \<open>g_assert\<close> of its loop holds. \<open>i\<close> is the loop counter and \<open>last_max\<close> the upper bound of
  the range before.
\<close>

fun ensure_ranges_loop :: "GRange list \<Rightarrow> nat \<Rightarrow> guint \<Rightarrow> bool" where
  "ensure_ranges_loop [] i last_max = True"
| "ensure_ranges_loop (rng # rest) i last_max =
     ((if i > 0 then location rng > last_max else location rng \<ge> last_max) \<and>
      g_range_get_max rng > location rng \<and>
      ensure_ranges_loop rest (i + 1) (g_range_get_max rng))"

definition g_index_set_ensure_ranges :: "GRange list \<Rightarrow> bool" where
  "g_index_set_ensure_ranges rs = ensure_ranges_loop rs 0 0"

text \<open>The first step: find the position and put a copy of the range into the array.\<close>

definition insert_range :: "GRange list \<Rightarrow> GRange \<Rightarrow> GRange list \<times> nat" where
  "insert_range rs rng =
     (let pos = g_index_set_get_position rs (location rng) in
      if pos \<ge> length rs then (rs @ [rng], pos)
      else
        let r = rs ! pos;
            pos = (if g_range_contains_location r (location rng) then pos + 1 else pos)
        in (g_array_insert_val rs pos rng, pos))"

text \<open>The loop "coalesce the preceding range intervals".\<close>

function coalesce_preceding :: "GRange list \<Rightarrow> GRange \<Rightarrow> nat \<Rightarrow> GRange list \<times> nat" where
  "coalesce_preceding rs rng pos =
     (if pos > 0 then
        let r = rs ! (pos - 1) in
        if g_range_get_max r < location rng then (rs, pos)
        else if g_range_get_max r \<ge> g_range_get_max rng
          then coalesce_preceding (g_array_remove_index rs pos) rng (pos - 1)
        else
          coalesce_preceding
            (g_array_remove_index
               (rs[pos - 1 := r\<lparr>length' := length' r + (g_range_get_max rng - g_range_get_max r)\<rparr>])
               pos)
            rng (pos - 1)
      else (rs, pos))"
  by pat_completeness auto
termination
  by (relation "measure (\<lambda>(rs, rng, pos). pos)") auto

text \<open>The loop "and now coalesce the following intervals".\<close>

function coalesce_following :: "GRange list \<Rightarrow> GRange \<Rightarrow> nat \<Rightarrow> GRange list" where
  "coalesce_following rs rng pos =
     (if pos + 1 < length rs then
        let r = rs ! (pos + 1) in
        if g_range_get_max rng < location r then rs
        else
          let copy = r;
              rs' = g_array_remove_index rs (pos + 1)
          in if g_range_get_max copy > g_range_get_max rng then
               let offset = g_range_get_max copy - g_range_get_max rng;
                   r = rs' ! pos
               in coalesce_following (rs'[pos := r\<lparr>length' := length' r + offset\<rparr>]) rng pos
             else coalesce_following rs' rng pos
      else rs)"
  by pat_completeness auto
termination
  by (relation "measure (\<lambda>(rs, rng, pos). length rs)")
     (auto simp: g_array_remove_index_def)

definition add_range_ranges :: "GRange list \<Rightarrow> GRange \<Rightarrow> GRange list" where
  "add_range_ranges rs rng =
     (let (rs1, pos1) = insert_range rs rng;
          (rs2, pos2) = coalesce_preceding rs1 rng pos1
      in coalesce_following rs2 rng pos2)"

text \<open>
  The whole function. \<open>disable_assert\<close> is the build option \<open>G_DISABLE_ASSERT\<close>: when it
  is set, \<open>g_index_set_ensure_ranges\<close> is compiled out; otherwise a failed check aborts.
\<close>

definition g_index_set_add_range_internal ::
    "bool \<Rightarrow> GIndexSet \<Rightarrow> GRange \<Rightarrow> failure + GIndexSet" where
  "g_index_set_add_range_internal disable_assert index_set rng =
     (if length' rng = 0 then Inr index_set
      else case ranges index_set of
        None \<Rightarrow> Inl Null_Dereference
      | Some rs \<Rightarrow>
          let rs' = add_range_ranges rs rng in
          if disable_assert \<or> g_index_set_ensure_ranges rs'
          then Inr (index_set\<lparr>ranges := Some rs'\<rparr>)
          else Inl Assertion_Failed)"

subsection \<open>The other initializers\<close>

definition g_index_set_init_with_index :: "GIndexSet \<Rightarrow> guint \<Rightarrow> GIndexSet" where
  "g_index_set_init_with_index index_set idx =
     (let cleared = g_index_set_clear_ranges index_set in
      g_index_set_make_immutable
        (cleared\<lparr>ranges := map_option (\<lambda>rs. g_array_insert_val rs 0 (g_range_init idx 1))
                               (ranges cleared)\<rparr>))"

text \<open>
  A loop that adds one range after the other with \<open>g_index_set_add_range_internal\<close>
  and stops at the first call that does not return.
\<close>

fun add_ranges_loop :: "bool \<Rightarrow> GIndexSet \<Rightarrow> GRange list \<Rightarrow> failure + GIndexSet" where
  "add_ranges_loop disable_assert index_set [] = Inr index_set"
| "add_ranges_loop disable_assert index_set (rng # rest) =
     (case g_index_set_add_range_internal disable_assert index_set rng of
        Inl e \<Rightarrow> Inl e
      | Inr index_set' \<Rightarrow> add_ranges_loop disable_assert index_set' rest)"

definition g_index_set_init_with_indicesv ::
    "bool \<Rightarrow> GIndexSet \<Rightarrow> guint list \<Rightarrow> failure + GIndexSet" where
  "g_index_set_init_with_indicesv disable_assert index_set indices =
     map_sum id g_index_set_make_immutable
       (add_ranges_loop disable_assert (g_index_set_clear_ranges index_set)
          (map (\<lambda>idx. g_range_init idx 1) indices))"

definition g_index_set_init_with_range ::
    "bool \<Rightarrow> GIndexSet \<Rightarrow> GRange \<Rightarrow> failure + GIndexSet" where
  "g_index_set_init_with_range disable_assert index_set rng =
     map_sum id g_index_set_make_immutable
       (g_index_set_add_range_internal disable_assert (g_index_set_clear_ranges index_set) rng)"

subsection \<open>Queries\<close>

definition g_index_set_get_size :: "GIndexSet \<Rightarrow> guint" where
  "g_index_set_get_size index_set =
     (case ranges index_set of
        None \<Rightarrow> 0
      | Some rs \<Rightarrow> if rs = [] then 0 else fold (\<lambda>rng count. count + length' rng) rs 0)"

definition g_index_set_get_first_index :: "GIndexSet \<Rightarrow> guint" where
  "g_index_set_get_first_index index_set =
     (case ranges index_set of
        None \<Rightarrow> G_INDEX_SET_NOT_FOUND
      | Some rs \<Rightarrow> if rs = [] then G_INDEX_SET_NOT_FOUND else location (rs ! 0))"

definition g_index_set_get_last_index :: "GIndexSet \<Rightarrow> guint" where
  "g_index_set_get_last_index index_set =
     (case ranges index_set of
        None \<Rightarrow> G_INDEX_SET_NOT_FOUND
      | Some rs \<Rightarrow>
          if rs = [] then G_INDEX_SET_NOT_FOUND
          else g_range_get_max (rs ! (length rs - 1)) - 1)"

datatype GIndexSetPredicate =
    G_INDEX_SET_PREDICATE_LESS_THAN
  | G_INDEX_SET_PREDICATE_LESS_THAN_OR_EQUAL
  | G_INDEX_SET_PREDICATE_GREATER_THAN_OR_EQUAL
  | G_INDEX_SET_PREDICATE_GREATER_THAN

text \<open>
  The \<open>switch\<close> of \<open>g_index_set_get_index\<close> falls through from the strict cases into
  the non-strict ones; the two definitions below are the bodies of the labels
  \<open>GREATER_THAN_OR_EQUAL\<close> and \<open>LESS_THAN_OR_EQUAL\<close>.
\<close>

definition get_index_greater_than_or_equal :: "GRange list \<Rightarrow> guint \<Rightarrow> guint" where
  "get_index_greater_than_or_equal rs idx =
     (if idx = G_INDEX_SET_NOT_FOUND then G_INDEX_SET_NOT_FOUND
      else
        let pos = g_index_set_get_position rs idx in
        if pos \<ge> length rs then G_INDEX_SET_NOT_FOUND
        else
          let r = rs ! pos in
          if g_range_contains_location r idx then idx else location r)"

definition get_index_less_than_or_equal :: "GRange list \<Rightarrow> guint \<Rightarrow> guint" where
  "get_index_less_than_or_equal rs idx =
     (let pos = g_index_set_get_position rs idx in
      if pos \<ge> length rs then G_INDEX_SET_NOT_FOUND
      else
        let r = rs ! pos in
        if g_range_contains_location r idx then idx
        else if pos = 0 then G_INDEX_SET_NOT_FOUND
        else g_range_get_max (rs ! (pos - 1)) - 1)"

definition g_index_set_get_index :: "GIndexSet \<Rightarrow> GIndexSetPredicate \<Rightarrow> guint \<Rightarrow> guint" where
  "g_index_set_get_index index_set predicate idx =
     (case ranges index_set of
        None \<Rightarrow> G_INDEX_SET_NOT_FOUND
      | Some rs \<Rightarrow>
          if rs = [] then G_INDEX_SET_NOT_FOUND
          else (case predicate of
            G_INDEX_SET_PREDICATE_GREATER_THAN \<Rightarrow>
              if idx + 1 = G_INDEX_SET_NOT_FOUND then G_INDEX_SET_NOT_FOUND
              else get_index_greater_than_or_equal rs (idx + 1)
          | G_INDEX_SET_PREDICATE_GREATER_THAN_OR_EQUAL \<Rightarrow>
              get_index_greater_than_or_equal rs idx
          | G_INDEX_SET_PREDICATE_LESS_THAN \<Rightarrow>
              if idx = 0 then G_INDEX_SET_NOT_FOUND
              else get_index_less_than_or_equal rs (idx - 1)
          | G_INDEX_SET_PREDICATE_LESS_THAN_OR_EQUAL \<Rightarrow>
              get_index_less_than_or_equal rs idx))"

definition g_index_set_contains_index :: "GIndexSet \<Rightarrow> guint \<Rightarrow> bool" where
  "g_index_set_contains_index index_set idx =
     (case ranges index_set of
        None \<Rightarrow> False
      | Some rs \<Rightarrow>
          if rs = [] then False
          else
            let pos = g_index_set_get_position rs idx in
            if pos \<ge> length rs then False
            else g_range_contains_location (rs ! pos) idx)"

definition g_index_set_contains_range :: "GIndexSet \<Rightarrow> GRange \<Rightarrow> bool" where
  "g_index_set_contains_range index_set rng =
     (if length' rng = 0 then True
      else if location rng > G_INDEX_SET_NOT_FOUND - length' rng then False
      else case ranges index_set of
        None \<Rightarrow> False
      | Some rs \<Rightarrow>
          if rs = [] then False
          else
            let pos = g_index_set_get_position rs (location rng) in
            if pos \<ge> length rs then False
            else
              let r = rs ! pos in
              g_range_contains_location r (location rng) \<and>
              g_range_contains_location r (g_range_get_max rng - 1))"

subsection \<open>Mutation\<close>

definition g_index_set_add_index :: "bool \<Rightarrow> GIndexSet \<Rightarrow> guint \<Rightarrow> failure + GIndexSet" where
  "g_index_set_add_index disable_assert index_set idx =
     (if \<not> g_index_set_is_mutable index_set then Inl Precondition_Failed
      else g_index_set_add_range_internal disable_assert index_set (g_range_init idx 1))"

text \<open>\<open>g_index_set_add_indices\<close> (variadic) and \<open>g_index_set_add_indicesv\<close> (array) run the same loop.\<close>

definition g_index_set_add_indicesv ::
    "bool \<Rightarrow> GIndexSet \<Rightarrow> guint list \<Rightarrow> failure + GIndexSet" where
  "g_index_set_add_indicesv disable_assert index_set indices =
     (if \<not> g_index_set_is_mutable index_set then Inl Precondition_Failed
      else add_ranges_loop disable_assert index_set (map (\<lambda>idx. g_range_init idx 1) indices))"

definition g_index_set_add_range :: "bool \<Rightarrow> GIndexSet \<Rightarrow> GRange \<Rightarrow> failure + GIndexSet" where
  "g_index_set_add_range disable_assert index_set rng =
     (if \<not> g_index_set_is_mutable index_set then Inl Precondition_Failed
      else g_index_set_add_range_internal disable_assert index_set rng)"

text \<open>
  The second argument of \<open>g_index_set_add_set\<close> is a pointer to a set: to another
  object, whose ranges are then a value of their own, or to the very set that is being
  changed.

  In the second case the loop passes \<open>r\<close>, a pointer into the array of the set, to
  \<open>g_index_set_add_range_internal\<close>. A range of length 0 makes that call return at
  once. For any other range the call inserts a copy into the same array, which can
  reallocate and move it, and then goes on reading \<open>range->location\<close> and
  \<open>g_range_get_max (range)\<close> through the pointer in the coalescing loops: the first such
  range ends the call in a read through a dangling pointer.
\<close>

datatype set_argument = Same_Set | Other_Set GIndexSet

definition g_index_set_add_set ::
    "bool \<Rightarrow> GIndexSet \<Rightarrow> set_argument \<Rightarrow> failure + GIndexSet" where
  "g_index_set_add_set disable_assert index_set set_arg =
     (if \<not> g_index_set_is_mutable index_set then Inl Precondition_Failed
      else case set_arg of
        Other_Set other \<Rightarrow>
          (case ranges other of
             None \<Rightarrow> Inr index_set
           | Some rs \<Rightarrow> add_ranges_loop disable_assert index_set rs)
      | Same_Set \<Rightarrow>
          (case ranges index_set of
             None \<Rightarrow> Inr index_set
           | Some rs \<Rightarrow>
               if list_all (\<lambda>r. length' r = 0) rs then Inr index_set
               else Inl Dangling_Read))"

text \<open>
  \<open>g_index_set_remove_range\<close> computes a position and returns on every path without
  writing to the set. The source passes the name \<open>index_\<close>, which is not declared in
  that function, to the position lookup; the location of the range stands for it here.
  The value is not used afterwards.
\<close>

definition g_index_set_remove_range :: "GIndexSet \<Rightarrow> GRange \<Rightarrow> GIndexSet" where
  "g_index_set_remove_range index_set rng =
     (case ranges index_set of
        None \<Rightarrow> index_set
      | Some rs \<Rightarrow>
          if rs = [] then index_set
          else
            let pos = g_index_set_get_position rs (location rng) in
            if pos \<ge> length rs then index_set else index_set)"

text \<open>\<open>g_index_set_remove_index\<close> checks the set pointer only, not \<open>is_mutable\<close>.\<close>

definition g_index_set_remove_index :: "GIndexSet \<Rightarrow> guint \<Rightarrow> failure + GIndexSet" where
  "g_index_set_remove_index index_set idx =
     Inr (g_index_set_remove_range index_set (g_range_init idx 1))"

subsection \<open>Enumeration\<close>

text \<open>
  The callback \<open>func (j, data)\<close> returns whether to stop and may write to \<open>data\<close>: it
  is a function from the index and the data to the flag and the new data. Each loop
  returns the data it leaves behind; the inner loops also return whether the callback
  asked to stop, which makes the whole enumeration return. The outer loops read the
  array at \<open>i\<close> only: going forward \<open>i < stop\<close> and \<open>stop\<close> is at most the length of the
  array; going backward \<open>i\<close> starts below the length and decreases.
\<close>

type_synonym 'd GIndexSetEnumerateFunc = "guint \<Rightarrow> 'd \<Rightarrow> bool \<times> 'd"

definition G_INDEX_SET_ENUMERATE_NONE :: guint where
  "G_INDEX_SET_ENUMERATE_NONE = 0"

definition G_INDEX_SET_ENUMERATE_REVERSE :: guint where
  "G_INDEX_SET_ENUMERATE_REVERSE = push_bit 0 1"

function enumerate_indices_forward ::
    "'d GIndexSetEnumerateFunc \<Rightarrow> guint \<Rightarrow> guint \<Rightarrow> 'd \<Rightarrow> bool \<times> 'd" where
  "enumerate_indices_forward func r_stop j data =
     (if j < r_stop then
        (case func j data of (should_stop, data') \<Rightarrow>
           if should_stop then (True, data')
           else enumerate_indices_forward func r_stop (j + 1) data')
      else (False, data))"
  by pat_completeness auto
termination
proof (relation "measure (\<lambda>(func, r_stop, j, data). unat r_stop - unat j)")
  show "wf (measure (\<lambda>(func, r_stop, j, data). unat r_stop - unat j))"
    by simp
next
  fix func :: "'d GIndexSetEnumerateFunc" and r_stop j :: guint and data x :: 'd
    and should_stop :: bool and data' :: 'd
  assume lt: "j < r_stop"
  then have "unat (j + 1) = Suc (unat j)"
    by unat_arith
  moreover have "unat j < unat r_stop"
    using lt by (simp add: word_less_nat_alt)
  ultimately show "((func, r_stop, j + 1, data'), (func, r_stop, j, data))
      \<in> measure (\<lambda>(func, r_stop, j, data). unat r_stop - unat j)"
    by simp
qed

function enumerate_indices_reverse ::
    "'d GIndexSetEnumerateFunc \<Rightarrow> guint \<Rightarrow> guint \<Rightarrow> 'd \<Rightarrow> bool \<times> 'd" where
  "enumerate_indices_reverse func r_stop j data =
     (if j \<ge> r_stop then
        (case func j data of (should_stop, data') \<Rightarrow>
           if should_stop then (True, data')
           else if j = 0 then (False, data')
           else enumerate_indices_reverse func r_stop (j - 1) data')
      else (False, data))"
  by pat_completeness auto
termination
  by (relation "measure (\<lambda>(func, r_stop, j, data). unat j)")
     (auto simp: measure_unat)

function enumerate_ranges_forward ::
    "'d GIndexSetEnumerateFunc \<Rightarrow> GRange list \<Rightarrow> nat \<Rightarrow> nat \<Rightarrow> 'd \<Rightarrow> 'd" where
  "enumerate_ranges_forward func rs stop i data =
     (if i < stop then
        let r_range = rs ! i;
            r_start = location r_range;
            r_stop = g_range_get_max r_range
        in case enumerate_indices_forward func r_stop r_start data of
             (returned, data') \<Rightarrow>
               if returned then data'
               else enumerate_ranges_forward func rs stop (i + 1) data'
      else data)"
  by pat_completeness auto
termination
  by (relation "measure (\<lambda>(func, rs, stop, i, data). stop - i)") auto

function enumerate_ranges_reverse ::
    "'d GIndexSetEnumerateFunc \<Rightarrow> GRange list \<Rightarrow> nat \<Rightarrow> nat \<Rightarrow> 'd \<Rightarrow> 'd" where
  "enumerate_ranges_reverse func rs stop i data =
     (if i \<ge> stop then
        let r_range = rs ! i;
            r_start = g_range_get_max r_range - 1;
            r_stop = location r_range
        in case enumerate_indices_reverse func r_stop r_start data of
             (returned, data') \<Rightarrow>
               if returned then data'
               else if i = 0 then data'
               else enumerate_ranges_reverse func rs stop (i - 1) data'
      else data)"
  by pat_completeness auto
termination
  by (relation "measure (\<lambda>(func, rs, stop, i, data). i)") auto

definition g_index_set_enumerate_in_range ::
    "GIndexSet \<Rightarrow> GRange \<Rightarrow> guint \<Rightarrow> 'd GIndexSetEnumerateFunc \<Rightarrow> 'd \<Rightarrow> 'd" where
  "g_index_set_enumerate_in_range index_set rng flags func data =
     (case ranges index_set of
        None \<Rightarrow> data
      | Some rs \<Rightarrow>
          if rs = [] then data
          else if length' rng = 0 then data
          else
            let is_reverse = (flags AND G_INDEX_SET_ENUMERATE_REVERSE \<noteq> 0);
                start = g_index_set_get_position rs (location rng);
                start = (if start \<ge> length rs then 0 else start);
                stop = g_index_set_get_position rs (g_range_get_max rng - 1)
            in if is_reverse then enumerate_ranges_reverse func rs stop start data
               else enumerate_ranges_forward func rs stop start data)"

definition g_index_set_enumerate ::
    "GIndexSet \<Rightarrow> guint \<Rightarrow> 'd GIndexSetEnumerateFunc \<Rightarrow> 'd \<Rightarrow> 'd" where
  "g_index_set_enumerate index_set flags func data =
     (let first = g_index_set_get_first_index index_set in
      if first = G_INDEX_SET_NOT_FOUND then data
      else
        let last_index = g_index_set_get_last_index index_set;
            rng = g_range_init first ((last_index - first) + 1)
        in g_index_set_enumerate_in_range index_set rng flags func data)"

section \<open>Calls in sequence\<close>

text \<open>
  The public mutators as data, so that a client's sequence of calls is a list. The
  calls run in order for as long as each of them returns normally.
\<close>

datatype mutation =
    Add_Index guint
  | Add_Indices "guint list"
  | Add_Range GRange
  | Add_Set set_argument
  | Remove_Index guint

fun apply_mutation :: "bool \<Rightarrow> GIndexSet \<Rightarrow> mutation \<Rightarrow> failure + GIndexSet" where
  "apply_mutation disable_assert index_set (Add_Index idx) =
     g_index_set_add_index disable_assert index_set idx"
| "apply_mutation disable_assert index_set (Add_Indices indices) =
     g_index_set_add_indicesv disable_assert index_set indices"
| "apply_mutation disable_assert index_set (Add_Range rng) =
     g_index_set_add_range disable_assert index_set rng"
| "apply_mutation disable_assert index_set (Add_Set set_arg) =
     g_index_set_add_set disable_assert index_set set_arg"
| "apply_mutation disable_assert index_set (Remove_Index idx) =
     g_index_set_remove_index index_set idx"

fun run_mutations :: "bool \<Rightarrow> GIndexSet \<Rightarrow> mutation list \<Rightarrow> failure + GIndexSet" where
  "run_mutations disable_assert index_set [] = Inr index_set"
| "run_mutations disable_assert index_set (m # ms) =
     (case apply_mutation disable_assert index_set m of
        Inl e \<Rightarrow> Inl e
      | Inr index_set' \<Rightarrow> run_mutations disable_assert index_set' ms)"

text \<open>A callback that never asks to stop and keeps the indices it was called with, in order.\<close>

definition record_index :: "(guint list) GIndexSetEnumerateFunc" where
  "record_index j visited = (False, visited @ [j])"

section \<open>The invariant of the stored ranges\<close>

text \<open>
  The exclusive upper bound of a range as a natural number, without the wrap-around of
  \<open>g_range_get_max\<close>; a range fits when that bound is itself a \<open>guint\<close>, that is when
  \<open>g_range_get_max\<close> does not wrap.
\<close>

definition range_end :: "GRange \<Rightarrow> nat" where
  "range_end r = unat (location r) + unat (length' r)"

definition range_fits :: "GRange \<Rightarrow> bool" where
  "range_fits r \<longleftrightarrow> range_end r < 2 ^ 32"

text \<open>
  The invariant: whenever a range stands before another one in the array, it ends
  strictly below the location of the other, and no range is empty. So the ranges
  are in ascending order of location, no two of them share an index, and at least one
  index that is in neither lies between two of them.
\<close>

definition store_invariant :: "GRange list \<Rightarrow> bool" where
  "store_invariant rs \<longleftrightarrow>
     sorted_wrt (\<lambda>a b. range_end a < unat (location b)) rs \<and> list_all (\<lambda>r. 0 < length' r) rs"

definition store_ok :: "GRange list \<Rightarrow> bool" where
  "store_ok rs \<longleftrightarrow> store_invariant rs \<and> list_all range_fits rs"

text \<open>
  The arguments whose upper bounds do not wrap (a range of length 0 is never stored),
  with an added set that is another object.
\<close>

definition range_in_bounds :: "GRange \<Rightarrow> bool" where
  "range_in_bounds r \<longleftrightarrow> length' r = 0 \<or> range_fits r"

fun mutation_in_bounds :: "mutation \<Rightarrow> bool" where
  "mutation_in_bounds (Add_Index idx) = range_fits (g_range_init idx 1)"
| "mutation_in_bounds (Add_Indices indices) =
     list_all (\<lambda>idx. range_fits (g_range_init idx 1)) indices"
| "mutation_in_bounds (Add_Range rng) = range_in_bounds rng"
| "mutation_in_bounds (Add_Set (Other_Set other)) =
     (case ranges other of None \<Rightarrow> True | Some rs \<Rightarrow> list_all range_in_bounds rs)"
| "mutation_in_bounds (Add_Set Same_Set) = False"
| "mutation_in_bounds (Remove_Index idx) = True"

section \<open>The queries as the specification words them\<close>

text \<open>
  These three definitions follow the wording of the specification, not the source, to
  be compared with the source's functions. Containment of a range: the stored range
  at the resolved position of the range's location contains both the location and the
  last index of the range.
\<close>

definition contains_range_at_position :: "GIndexSet \<Rightarrow> GRange \<Rightarrow> bool" where
  "contains_range_at_position index_set rng \<longleftrightarrow>
     (case ranges index_set of
        None \<Rightarrow> False
      | Some rs \<Rightarrow>
          let pos = g_index_set_get_position rs (location rng) in
          pos < length rs \<and>
          g_range_contains_location (rs ! pos) (location rng) \<and>
          g_range_contains_location (rs ! pos) (g_range_get_max rng - 1))"

text \<open>
  Nearest index at or after: resolve the position; the index itself if the range there
  contains it, otherwise the location of that range; "not found" past the last range.
\<close>

definition nearest_at_or_after :: "GRange list \<Rightarrow> guint \<Rightarrow> guint" where
  "nearest_at_or_after rs idx =
     (let pos = g_index_set_get_position rs idx in
      if pos < length rs then
        (if g_range_contains_location (rs ! pos) idx then idx else location (rs ! pos))
      else G_INDEX_SET_NOT_FOUND)"

text \<open>
  Nearest index at or before, for a resolved position inside the array: the index
  itself if the range there contains it, otherwise the last index of the range before,
  and "not found" when there is none.
\<close>

definition nearest_at_or_before :: "GRange list \<Rightarrow> guint \<Rightarrow> guint" where
  "nearest_at_or_before rs idx =
     (let pos = g_index_set_get_position rs idx in
      if g_range_contains_location (rs ! pos) idx then idx
      else if 0 < pos then g_range_get_max (rs ! (pos - 1)) - 1
      else G_INDEX_SET_NOT_FOUND)"

section \<open>Properties\<close>

declare position_search.simps [simp del] skip_smaller.simps [simp del]
  coalesce_preceding.simps [simp del] coalesce_following.simps [simp del]

subsection \<open>The position lookup\<close>

lemma position_search_loop_returns:
  "lower \<le> upper \<Longrightarrow>
   position_search_loop rs idx lower upper = Some (position_search rs idx lower upper)"
proof (induction rs idx lower upper rule: position_search.induct)
  case (1 rs idx lower upper)
  let ?pos = "(upper + lower) div 2"
  show ?case
  proof (cases "upper = lower")
    case True
    then show ?thesis
      by (subst position_search_loop.simps, subst position_search.simps) (simp add: Let_def)
  next
    case False
    then have lt: "\<not> upper \<le> lower" "lower \<le> ?pos" "?pos + 1 \<le> upper"
      using "1.prems" by simp_all
    show ?thesis
      using False lt "1.IH"(1) [OF refl lt(1) refl] "1.IH"(2) [OF refl lt(1) refl]
      by (subst position_search_loop.simps, subst position_search.simps) (simp add: Let_def)
  qed
qed

subsection \<open>Containment of an empty range\<close>

text \<open>
  C10. For every index set, the empty one and the one whose array was never allocated
  included, and every range of length 0, \<open>g_index_set_contains_range\<close> returns true;
  the answer does not depend on the stored ranges.
\<close>

theorem contains_range_of_length_zero:
  "length' rng = 0 \<Longrightarrow> g_index_set_contains_range index_set rng"
  by (simp add: g_index_set_contains_range_def)

theorem contains_range_of_length_zero_witness:
  "length' (g_range_init 7 0) = 0 \<and>
   g_index_set_contains_range (g_index_set_init g_index_set_alloc) (g_range_init 7 0)"
  using contains_range_of_length_zero [of "g_range_init 7 0" "g_index_set_init g_index_set_alloc"]
  by (simp add: g_range_init_def)

subsection \<open>The scenario of the test \<open>index_set_add\<close>\<close>

text \<open>
  C6. From an empty mutable set, \<open>g_index_set_add_index\<close> with 5, then 0, 1, 2, then
  7, 6, 2 leaves the two ranges [0,3) and [5,8): size 6, first index 0, last index 7.
  This holds with and without the consistency check compiled in.
\<close>

theorem add_index_scenario_coalesces:
  "run_mutations False (g_index_set_init g_index_set_alloc)
     [Add_Index 5, Add_Index 0, Add_Index 1, Add_Index 2, Add_Index 7, Add_Index 6, Add_Index 2]
   = Inr \<lparr>ref_count = 1,
           ranges = Some [\<lparr>location = 0, length' = 3\<rparr>, \<lparr>location = 5, length' = 3\<rparr>],
           is_mutable = True\<rparr> \<and>
   run_mutations True (g_index_set_init g_index_set_alloc)
     [Add_Index 5, Add_Index 0, Add_Index 1, Add_Index 2, Add_Index 7, Add_Index 6, Add_Index 2]
   = Inr \<lparr>ref_count = 1,
           ranges = Some [\<lparr>location = 0, length' = 3\<rparr>, \<lparr>location = 5, length' = 3\<rparr>],
           is_mutable = True\<rparr> \<and>
   g_index_set_get_size
     \<lparr>ref_count = 1,
      ranges = Some [\<lparr>location = 0, length' = 3\<rparr>, \<lparr>location = 5, length' = 3\<rparr>],
      is_mutable = True\<rparr> = 6 \<and>
   g_index_set_get_first_index
     \<lparr>ref_count = 1,
      ranges = Some [\<lparr>location = 0, length' = 3\<rparr>, \<lparr>location = 5, length' = 3\<rparr>],
      is_mutable = True\<rparr> = 0 \<and>
   g_index_set_get_last_index
     \<lparr>ref_count = 1,
      ranges = Some [\<lparr>location = 0, length' = 3\<rparr>, \<lparr>location = 5, length' = 3\<rparr>],
      is_mutable = True\<rparr> = 7"
  by code_simp

subsection \<open>Removal\<close>

lemma g_index_set_remove_range_unchanged:
  "g_index_set_remove_range index_set rng = index_set"
  by (simp add: g_index_set_remove_range_def Let_def split: option.split)

text \<open>
  C2. The claim is that removing a range deletes exactly its indices. The code does
  not: after adding [0,10) to an empty mutable set, \<open>g_index_set_remove_index\<close> with
  5 returns normally, the stored range is still [0,10) and 5 is still contained.
\<close>

theorem remove_index_keeps_the_index:
  "run_mutations False (g_index_set_init g_index_set_alloc)
     [Add_Range (g_range_init 0 10), Remove_Index 5]
   = Inr \<lparr>ref_count = 1, ranges = Some [\<lparr>location = 0, length' = 10\<rparr>], is_mutable = True\<rparr> \<and>
   g_index_set_contains_index
     \<lparr>ref_count = 1, ranges = Some [\<lparr>location = 0, length' = 10\<rparr>], is_mutable = True\<rparr> 5"
  by code_simp

subsection \<open>Mutation of an immutable set\<close>

lemma add_index_immutable_refused:
  "\<not> is_mutable index_set \<Longrightarrow>
   g_index_set_add_index disable_assert index_set idx = Inl Precondition_Failed"
  by (simp add: g_index_set_add_index_def g_index_set_is_mutable_def)

lemma add_indicesv_immutable_refused:
  "\<not> is_mutable index_set \<Longrightarrow>
   g_index_set_add_indicesv disable_assert index_set indices = Inl Precondition_Failed"
  by (simp add: g_index_set_add_indicesv_def g_index_set_is_mutable_def)

lemma add_range_immutable_refused:
  "\<not> is_mutable index_set \<Longrightarrow>
   g_index_set_add_range disable_assert index_set rng = Inl Precondition_Failed"
  by (simp add: g_index_set_add_range_def g_index_set_is_mutable_def)

lemma add_set_immutable_refused:
  "\<not> is_mutable index_set \<Longrightarrow>
   g_index_set_add_set disable_assert index_set set_arg = Inl Precondition_Failed"
  by (simp add: g_index_set_add_set_def g_index_set_is_mutable_def)

text \<open>
  C9. The four adding calls refuse an immutable set with a failed precondition (the
  lemmas above). \<open>g_index_set_remove_index\<close> does not: on the immutable empty set it
  returns normally, where \<open>g_index_set_add_index\<close> reports the failed precondition.
\<close>

theorem remove_index_immutable_not_refused:
  "\<not> g_index_set_is_mutable (g_index_set_init_empty g_index_set_alloc) \<and>
   g_index_set_remove_index (g_index_set_init_empty g_index_set_alloc) 3
     = Inr (g_index_set_init_empty g_index_set_alloc) \<and>
   g_index_set_add_index False (g_index_set_init_empty g_index_set_alloc) 3
     = Inl Precondition_Failed"
  by code_simp

subsection \<open>Enumeration\<close>

text \<open>
  C3. The claim is that enumerating a whole set calls the callback once per index in
  either direction. On the set initialized with the range [0,10), of size 10, the
  forward enumeration calls it for no index at all, and the reverse one for 9 down to 0.
  On the set of the indices 0, 2, 4, 6, 8 the forward enumeration stops before the last
  range and the reverse one calls it for no index.
\<close>

theorem enumerate_misses_ranges:
  "g_index_set_init_with_range False g_index_set_alloc (g_range_init 0 10)
     = Inr \<lparr>ref_count = 1, ranges = Some [\<lparr>location = 0, length' = 10\<rparr>], is_mutable = False\<rparr> \<and>
   g_index_set_get_size
     \<lparr>ref_count = 1, ranges = Some [\<lparr>location = 0, length' = 10\<rparr>], is_mutable = False\<rparr> = 10 \<and>
   g_index_set_enumerate
     \<lparr>ref_count = 1, ranges = Some [\<lparr>location = 0, length' = 10\<rparr>], is_mutable = False\<rparr>
     G_INDEX_SET_ENUMERATE_NONE record_index [] = [] \<and>
   g_index_set_enumerate
     \<lparr>ref_count = 1, ranges = Some [\<lparr>location = 0, length' = 10\<rparr>], is_mutable = False\<rparr>
     G_INDEX_SET_ENUMERATE_REVERSE record_index [] = [9, 8, 7, 6, 5, 4, 3, 2, 1, 0] \<and>
   map_sum id (\<lambda>index_set.
       (g_index_set_get_size index_set,
        g_index_set_enumerate index_set G_INDEX_SET_ENUMERATE_NONE record_index [],
        g_index_set_enumerate index_set G_INDEX_SET_ENUMERATE_REVERSE record_index []))
     (g_index_set_init_with_indicesv False g_index_set_alloc [0, 2, 4, 6, 8])
     = Inr (5, [0, 2, 4, 6], [])"
  by code_simp

text \<open>
  C4. The claim is that a sub-range enumeration calls the callback for the indices of
  the query range only. On the set initialized with [0,10) and the query range of
  location 3 and length 4, the forward enumeration calls it for no index, and the
  reverse one for 9 down to 0, six of which lie outside the query range.
\<close>

theorem enumerate_in_range_not_clipped:
  "g_index_set_enumerate_in_range
     \<lparr>ref_count = 1, ranges = Some [\<lparr>location = 0, length' = 10\<rparr>], is_mutable = False\<rparr>
     (g_range_init 3 4) G_INDEX_SET_ENUMERATE_NONE record_index [] = [] \<and>
   g_index_set_enumerate_in_range
     \<lparr>ref_count = 1, ranges = Some [\<lparr>location = 0, length' = 10\<rparr>], is_mutable = False\<rparr>
     (g_range_init 3 4) G_INDEX_SET_ENUMERATE_REVERSE record_index []
     = [9, 8, 7, 6, 5, 4, 3, 2, 1, 0]"
  by code_simp

subsection \<open>The store invariant under insertion\<close>

lemma get_max_unat: "range_fits r \<Longrightarrow> unat (g_range_get_max r) = range_end r"
  unfolding range_fits_def range_end_def g_range_get_max_def
  using unat_add_lem [of "location r" "length' r"] by simp

lemma location_le_range_end: "unat (location r) \<le> range_end r"
  by (simp add: range_end_def)

lemma contains_location_iff:
  "range_fits r \<Longrightarrow>
   g_range_contains_location r i \<longleftrightarrow> unat (location r) \<le> unat i \<and> unat i < range_end r"
  using get_max_unat [of r]
  by (simp add: g_range_contains_location_def g_range_get_max_def word_le_nat_alt word_less_nat_alt)

lemma extend_range_end:
  assumes "range_fits r" "range_fits x" "range_fits y" "range_end y \<le> range_end x"
    and "range_end r + (range_end x - range_end y) < 2 ^ 32"
  shows "range_end (r\<lparr>length' := length' r + (g_range_get_max x - g_range_get_max y)\<rparr>)
         = range_end r + (range_end x - range_end y)"
proof -
  have le: "g_range_get_max y \<le> g_range_get_max x"
    using assms by (simp add: word_le_nat_alt get_max_unat)
  have d: "unat (g_range_get_max x - g_range_get_max y) = range_end x - range_end y"
    using unat_sub [OF le] assms by (simp add: get_max_unat)
  have "unat (length' r) + unat (g_range_get_max x - g_range_get_max y) < 2 ^ LENGTH(32)"
    using assms(5) d by (simp add: range_end_def)
  then have "unat (length' r + (g_range_get_max x - g_range_get_max y))
      = unat (length' r) + unat (g_range_get_max x - g_range_get_max y)"
    by (simp only: unat_add_lem)
  then show ?thesis
    using d by (simp add: range_end_def)
qed

lemma store_ok_nth:
  "store_ok rs \<Longrightarrow> k < length rs \<Longrightarrow> range_fits (rs ! k) \<and> 0 < length' (rs ! k)"
  by (simp add: store_ok_def store_invariant_def list_all_length)

lemma store_ok_nth_less:
  "store_ok rs \<Longrightarrow> j < k \<Longrightarrow> k < length rs \<Longrightarrow> range_end (rs ! j) < unat (location (rs ! k))"
  using sorted_wrt_nth_less [of "\<lambda>a b. range_end a < unat (location b)" rs j k]
  by (simp add: store_ok_def store_invariant_def)

lemma store_invariant_sorted_by_location:
  "store_invariant rs \<Longrightarrow> sorted_wrt (\<lambda>a b. location a < location b) rs"
proof -
  assume "store_invariant rs"
  then have "sorted_wrt (\<lambda>a b. range_end a < unat (location b)) rs"
    by (simp add: store_invariant_def)
  then show ?thesis
  proof (rule sorted_wrt_mono_rel [rotated])
    fix a b :: GRange
    assume "range_end a < unat (location b)"
    then show "location a < location b"
      using location_le_range_end [of a] by (simp add: word_less_nat_alt)
  qed
qed

lemma store_invariant_no_shared_index:
  assumes "store_ok rs" "i < j" "j < length rs"
  shows "\<not> (g_range_contains_location (rs ! i) k \<and> g_range_contains_location (rs ! j) k)"
proof -
  have "range_fits (rs ! i)" "range_fits (rs ! j)"
    using assms store_ok_nth [of rs] by simp_all
  then show ?thesis
    using store_ok_nth_less [OF assms] by (auto simp: contains_location_iff)
qed

lemma skip_smaller_position:
  assumes "store_ok rs" "pos \<le> length (takeWhile (\<lambda>r. range_end r \<le> unat idx) rs)"
  shows "skip_smaller rs idx pos = length (takeWhile (\<lambda>r. range_end r \<le> unat idx) rs)"
  using assms
proof (induction rs idx pos rule: skip_smaller.induct)
  case (1 rs idx pos)
  let ?p = "length (takeWhile (\<lambda>r. range_end r \<le> unat idx) rs)"
  have ple: "?p \<le> length rs" by (rule length_takeWhile_le)
  show ?case
  proof (cases "pos < ?p")
    case True
    then have "takeWhile (\<lambda>r. range_end r \<le> unat idx) rs ! pos = rs ! pos"
      by (rule takeWhile_nth)
    moreover have "takeWhile (\<lambda>r. range_end r \<le> unat idx) rs ! pos
        \<in> set (takeWhile (\<lambda>r. range_end r \<le> unat idx) rs)"
      using True by simp
    ultimately have "range_end (rs ! pos) \<le> unat idx"
      using set_takeWhileD by fastforce
    moreover have "pos < length rs" using True ple by simp
    ultimately have c: "pos < length rs \<and> idx \<ge> g_range_get_max (rs ! pos)"
      using store_ok_nth [OF "1.prems"(1)] by (simp add: word_le_nat_alt get_max_unat)
    then have "skip_smaller rs idx pos = skip_smaller rs idx (pos + 1)"
      by (subst skip_smaller.simps) simp
    also have "\<dots> = ?p"
      using "1.IH" [OF c "1.prems"(1)] True by simp
    finally show ?thesis .
  next
    case False
    then have eq: "pos = ?p" using "1.prems"(2) by simp
    have "\<not> (pos < length rs \<and> idx \<ge> g_range_get_max (rs ! pos))"
    proof
      assume a: "pos < length rs \<and> idx \<ge> g_range_get_max (rs ! pos)"
      then have "\<not> range_end (rs ! ?p) \<le> unat idx"
        using nth_length_takeWhile [of "\<lambda>r. range_end r \<le> unat idx" rs] eq by simp
      moreover have "range_end (rs ! pos) \<le> unat idx"
        using a store_ok_nth [OF "1.prems"(1), of pos] by (simp add: word_le_nat_alt get_max_unat)
      ultimately show False using eq by simp
    qed
    then have "skip_smaller rs idx pos = pos"
      by (subst skip_smaller.simps) auto
    then show ?thesis using eq by simp
  qed
qed

lemma position_search_bound:
  assumes "store_ok rs" "lower \<le> upper" "upper \<le> length rs"
    and "lower \<le> length (takeWhile (\<lambda>r. range_end r \<le> unat idx) rs)"
  shows "position_search rs idx lower upper \<le> length (takeWhile (\<lambda>r. range_end r \<le> unat idx) rs)"
  using assms
proof (induction rs idx lower upper rule: position_search.induct)
  case (1 rs idx lower upper)
  let ?p = "length (takeWhile (\<lambda>r. range_end r \<le> unat idx) rs)"
  let ?pos = "(upper + lower) div 2"
  show ?case
  proof (cases "upper \<le> lower")
    case True
    then have "position_search rs idx lower upper = ?pos"
      by (subst position_search.simps) (simp add: Let_def)
    then show ?thesis using True "1.prems" by simp
  next
    case False
    then have bounds: "lower \<le> ?pos" "?pos < upper" "?pos < length rs"
      using "1.prems" by simp_all
    have fits: "range_fits (rs ! ?pos)"
      using store_ok_nth [OF "1.prems"(1) bounds(3)] by simp
    have before: "range_end (rs ! k) < unat (location (rs ! ?pos))" if "k < ?pos" for k
      using store_ok_nth_less [OF "1.prems"(1) that bounds(3)] .
    consider (left) "idx < location (rs ! ?pos)"
      | (right) "\<not> idx < location (rs ! ?pos)" "idx > location (rs ! ?pos) + length' (rs ! ?pos)"
      | (found) "\<not> idx < location (rs ! ?pos)" "\<not> idx > location (rs ! ?pos) + length' (rs ! ?pos)"
      by blast
    then show ?thesis
    proof cases
      case left
      then have "position_search rs idx lower upper = position_search rs idx lower ?pos"
        using False by (subst position_search.simps) (simp add: Let_def)
      moreover have "position_search rs idx lower ?pos \<le> ?p"
        using "1.IH"(1) [OF refl False refl left "1.prems"(1)] bounds "1.prems" by simp
      ultimately show ?thesis by simp
    next
      case right
      then have eq: "position_search rs idx lower upper = position_search rs idx (?pos + 1) upper"
        using False by (subst position_search.simps) (simp add: Let_def)
      have "range_end (rs ! ?pos) < unat idx"
        using right(2) get_max_unat [OF fits]
        by (simp add: word_less_nat_alt g_range_get_max_def)
      then have "range_end (rs ! k) \<le> unat idx" if "k < ?pos + 1" for k
        using that before [of k] location_le_range_end [of "rs ! ?pos"]
        by (cases "k = ?pos") auto
      then have "?pos + 1 \<le> ?p"
        using bounds(3) by (intro length_takeWhile_less_P_nth) auto
      then have "position_search rs idx (?pos + 1) upper \<le> ?p"
        using "1.IH"(2) [OF refl False refl right(1) right(2) "1.prems"(1)] bounds "1.prems" by simp
      then show ?thesis using eq by simp
    next
      case found
      then have eq: "position_search rs idx lower upper = ?pos"
        using False by (subst position_search.simps) (simp add: Let_def)
      have "unat (location (rs ! ?pos)) \<le> unat idx"
        using found(1) by (simp add: word_less_nat_alt)
      then have "range_end (rs ! k) \<le> unat idx" if "k < ?pos" for k
        using that before [of k] by fastforce
      then have "?pos \<le> ?p"
        using bounds(3) by (intro length_takeWhile_less_P_nth) auto
      then show ?thesis using eq by simp
    qed
  qed
qed

lemma get_position_takeWhile:
  "store_ok rs \<Longrightarrow>
   g_index_set_get_position rs idx = length (takeWhile (\<lambda>r. range_end r \<le> unat idx) rs)"
  unfolding g_index_set_get_position_def
  by (rule skip_smaller_position) (auto intro: position_search_bound)


lemma before_position:
  "k < length (takeWhile (\<lambda>r. range_end r \<le> unat idx) rs) \<Longrightarrow> range_end (rs ! k) \<le> unat idx"
proof -
  assume k: "k < length (takeWhile (\<lambda>r. range_end r \<le> unat idx) rs)"
  then have "takeWhile (\<lambda>r. range_end r \<le> unat idx) rs ! k
      \<in> set (takeWhile (\<lambda>r. range_end r \<le> unat idx) rs)"
    by simp
  then have "range_end (takeWhile (\<lambda>r. range_end r \<le> unat idx) rs ! k) \<le> unat idx"
    using set_takeWhileD by fastforce
  then show ?thesis
    using takeWhile_nth [OF k] by simp
qed

lemma at_position:
  "length (takeWhile (\<lambda>r. range_end r \<le> unat idx) rs) < length rs \<Longrightarrow>
   unat idx < range_end (rs ! length (takeWhile (\<lambda>r. range_end r \<le> unat idx) rs))"
  using nth_length_takeWhile [of "\<lambda>r. range_end r \<le> unat idx" rs] by simp

lemma insert_range_shape:
  assumes "store_ok rs"
  shows "\<exists>q\<le>length rs. insert_range rs rng = (take q rs @ rng # drop q rs, q) \<and>
           (0 < q \<longrightarrow> unat (location (rs ! (q - 1))) \<le> unat (location rng))"
proof -
  let ?p = "length (takeWhile (\<lambda>r. range_end r \<le> unat (location rng)) rs)"
  have pos: "g_index_set_get_position rs (location rng) = ?p"
    by (rule get_position_takeWhile [OF assms])
  have ple: "?p \<le> length rs" by (rule length_takeWhile_le)
  have prev: "unat (location (rs ! (?p - 1))) \<le> unat (location rng)" if "0 < ?p"
    using before_position [of "?p - 1" "location rng" rs] that
      location_le_range_end [of "rs ! (?p - 1)"] by simp
  show ?thesis
  proof (cases "?p \<ge> length rs")
    case True
    then have "insert_range rs rng = (take ?p rs @ rng # drop ?p rs, ?p)"
      using pos by (simp add: insert_range_def Let_def)
    then show ?thesis using ple prev by blast
  next
    case False
    show ?thesis
    proof (cases "g_range_contains_location (rs ! ?p) (location rng)")
      case True
      then have "insert_range rs rng = (take (?p + 1) rs @ rng # drop (?p + 1) rs, ?p + 1)"
        using pos False by (simp add: insert_range_def g_array_insert_val_def Let_def)
      moreover have "unat (location (rs ! ?p)) \<le> unat (location rng)"
        using True by (simp add: g_range_contains_location_def word_le_nat_alt)
      ultimately show ?thesis using False by (intro exI [of _ "?p + 1"]) simp
    next
      case nc: False
      then have "insert_range rs rng = (take ?p rs @ rng # drop ?p rs, ?p)"
        using pos False by (simp add: insert_range_def g_array_insert_val_def Let_def)
      then show ?thesis using ple prev by blast
    qed
  qed
qed

lemma coalesce_preceding_stop:
  "xs = [] \<or> g_range_get_max (last xs) < location rng \<Longrightarrow>
   coalesce_preceding (xs @ z # ys) rng (length xs) = (xs @ z # ys, length xs)"
  by (subst coalesce_preceding.simps) (auto simp: Let_def nth_append last_conv_nth)

lemma store_ok_append_single:
  "store_ok (xs @ [r]) \<Longrightarrow> xs \<noteq> [] \<Longrightarrow> range_fits (last xs) \<and> range_end (last xs) < unat (location r)"
  by (auto simp: store_ok_def store_invariant_def sorted_wrt_append list_all_iff)

lemma coalesce_preceding_step:
  assumes ok: "store_ok (xs @ [r])" and fits: "range_fits rng"
    and le: "unat (location r) \<le> unat (location rng)"
  shows "coalesce_preceding (xs @ r # rng # ys) rng (Suc (length xs)) =
     (if range_end r < unat (location rng) then (xs @ r # rng # ys, Suc (length xs))
      else if range_end rng \<le> range_end r then (xs @ r # ys, length xs)
      else (xs @ r\<lparr>length' := length' r + (g_range_get_max rng - g_range_get_max r)\<rparr> # ys,
            length xs))"
proof -
  have fr: "range_fits r"
    using ok by (simp add: store_ok_def)
  have stop: "xs = [] \<or> g_range_get_max (last xs) < location rng"
  proof (cases "xs = []")
    case False
    then have "range_fits (last xs)" "range_end (last xs) < unat (location r)"
      using store_ok_append_single [OF ok] by simp_all
    then show ?thesis
      using le by (simp add: word_less_nat_alt get_max_unat)
  qed simp
  have c1: "g_range_get_max r < location rng \<longleftrightarrow> range_end r < unat (location rng)"
    using fr by (simp add: word_less_nat_alt get_max_unat)
  have c2: "g_range_get_max r \<ge> g_range_get_max rng \<longleftrightarrow> range_end rng \<le> range_end r"
    using fr fits by (simp add: word_le_nat_alt get_max_unat)
  have rm: "g_array_remove_index (xs @ z # rng # ys) (Suc (length xs)) = xs @ z # ys" for z
    by (simp add: g_array_remove_index_def)
  show ?thesis
    by (subst coalesce_preceding.simps)
       (simp add: Let_def nth_append c1 c2 rm list_update_append
          coalesce_preceding_stop [OF stop])
qed


lemma length_positive:
  "unat (location r) < range_end r \<Longrightarrow> 0 < length' r"
  by (simp add: range_end_def word_greater_zero_iff unat_gt_0 [symmetric])

lemma store_ok_join:
  assumes "store_ok (xs @ [a])" "store_ok (b # ys)" "range_end a < unat (location b)"
  shows "store_ok (xs @ a # b # ys)"
proof -
  have "range_end x < unat (location y)" if "x \<in> set (xs @ [a])" "y \<in> set (b # ys)" for x y
  proof -
    have "range_end x \<le> range_end a"
      using that(1) assms(1) location_le_range_end [of a]
      by (auto simp: store_ok_def store_invariant_def sorted_wrt_append)
    moreover have "unat (location b) \<le> unat (location y)"
      using that(2) assms(2) location_le_range_end [of b]
      by (auto simp: store_ok_def store_invariant_def)
    ultimately show ?thesis using assms(3) by simp
  qed
  then have "sorted_wrt (\<lambda>a b. range_end a < unat (location b)) ((xs @ [a]) @ (b # ys))"
    using assms(1,2) unfolding sorted_wrt_append store_ok_def store_invariant_def by blast
  then show ?thesis
    using assms(1,2) by (simp add: store_ok_def store_invariant_def)
qed

lemma store_ok_replace_last:
  "store_ok (xs @ [r]) \<Longrightarrow> location r' = location r \<Longrightarrow> range_fits r' \<Longrightarrow> 0 < length' r' \<Longrightarrow>
   store_ok (xs @ [r'])"
  by (simp add: store_ok_def store_invariant_def sorted_wrt_append)

lemma store_ok_parts:
  "store_ok (xs @ ys) \<Longrightarrow> store_ok xs \<and> store_ok ys"
  by (auto simp: store_ok_def store_invariant_def sorted_wrt_append)

lemma store_ok_Cons_hd:
  "store_ok (xs @ r # ys) \<Longrightarrow> ys \<noteq> [] \<Longrightarrow> range_end r < unat (location (hd ys))"
  by (cases ys) (auto simp: store_ok_def store_invariant_def sorted_wrt_append)

lemma coalesce_following_store_ok:
  assumes fits: "range_fits rng"
  shows "store_ok (xs @ [cur]) \<Longrightarrow> store_ok rest \<Longrightarrow>
     range_end cur = range_end rng \<or>
       (range_end rng < range_end cur \<and> (rest \<noteq> [] \<longrightarrow> range_end cur < unat (location (hd rest)))) \<Longrightarrow>
     store_ok (coalesce_following (xs @ cur # rest) rng (length xs))"
proof (induction rest arbitrary: cur)
  case Nil
  then show ?case
    by (subst coalesce_following.simps) simp
next
  case (Cons r rest)
  have fr: "range_fits r" and okrest: "store_ok rest"
    using Cons.prems(2) store_ok_parts [of "[r]" rest] by (simp_all add: store_ok_def)
  have fc: "range_fits cur"
    using Cons.prems(1) by (simp add: store_ok_def)
  have c1: "g_range_get_max rng < location r \<longleftrightarrow> range_end rng < unat (location r)"
    using fits by (simp add: word_less_nat_alt get_max_unat)
  have c2: "g_range_get_max r > g_range_get_max rng \<longleftrightarrow> range_end rng < range_end r"
    using fits fr by (simp add: word_less_nat_alt get_max_unat)
  have rm: "g_array_remove_index (xs @ cur # r # rest) (Suc (length xs)) = xs @ cur # rest"
    by (simp add: g_array_remove_index_def)
  have unfold: "coalesce_following (xs @ cur # r # rest) rng (length xs) =
     (if range_end rng < unat (location r) then xs @ cur # r # rest
      else if range_end rng < range_end r
        then coalesce_following
          (xs @ cur\<lparr>length' := length' cur + (g_range_get_max r - g_range_get_max rng)\<rparr> # rest)
          rng (length xs)
      else coalesce_following (xs @ cur # rest) rng (length xs))"
    by (subst coalesce_following.simps) (simp add: Let_def nth_append c1 c2 rm)
  show ?case
  proof (cases "range_end rng < unat (location r)")
    case True
    have "range_end cur < unat (location r)"
      using Cons.prems(3) True by auto
    then have "store_ok (xs @ cur # r # rest)"
      using store_ok_join [OF Cons.prems(1) Cons.prems(2)] by simp
    then show ?thesis using unfold True by simp
  next
    case False
    then have eq: "range_end cur = range_end rng"
      using Cons.prems(3) by auto
    show ?thesis
    proof (cases "range_end rng < range_end r")
      case longer: True
      let ?cur = "cur\<lparr>length' := length' cur + (g_range_get_max r - g_range_get_max rng)\<rparr>"
      have "range_end r < 2 ^ 32"
        using fr by (simp add: range_fits_def)
      then have e: "range_end ?cur = range_end r"
        using extend_range_end [OF fc fr fits, of ] longer eq by simp
      then have "range_fits ?cur" "0 < length' ?cur"
        using fr longer eq location_le_range_end [of cur] length_positive [of ?cur]
        by (simp_all add: range_fits_def)
      then have "store_ok (xs @ [?cur])"
        using store_ok_replace_last [OF Cons.prems(1), of ?cur] by simp
      moreover have "rest \<noteq> [] \<longrightarrow> range_end ?cur < unat (location (hd rest))"
        using store_ok_Cons_hd [of "[]" r rest] Cons.prems(2) e by simp
      ultimately have "store_ok (coalesce_following (xs @ ?cur # rest) rng (length xs))"
        using Cons.IH [of ?cur] okrest longer e by simp
      then show ?thesis using unfold False longer by simp
    next
      case shorter: False
      have "store_ok (coalesce_following (xs @ cur # rest) rng (length xs))"
        using Cons.IH [OF Cons.prems(1) okrest] eq by simp
      then show ?thesis using unfold False shorter by simp
    qed
  qed
qed

lemma add_range_ranges_store_ok:
  assumes ok: "store_ok rs" and fits: "range_fits rng" and pos: "0 < length' rng"
  shows "store_ok (add_range_ranges rs rng)"
proof -
  obtain q where q: "q \<le> length rs"
      "insert_range rs rng = (take q rs @ rng # drop q rs, q)"
      "0 < q \<longrightarrow> unat (location (rs ! (q - 1))) \<le> unat (location rng)"
    using insert_range_shape [OF ok] by blast
  have single: "store_ok [rng]"
    using fits pos by (simp add: store_ok_def store_invariant_def)
  show ?thesis
  proof (cases q)
    case 0
    have "coalesce_preceding (rng # rs) rng 0 = (rng # rs, 0)"
      using coalesce_preceding_stop [of "[]" rng rng rs] by simp
    then have "add_range_ranges rs rng = coalesce_following ([] @ rng # rs) rng (length ([]::GRange list))"
      using q(2) 0 by (simp add: add_range_ranges_def)
    also have "store_ok \<dots>"
      using single ok by (intro coalesce_following_store_ok [OF fits]) simp_all
    finally show ?thesis .
  next
    case (Suc n)
    define xs where "xs = take n rs"
    define r where "r = rs ! n"
    define ys where "ys = drop q rs"
    have nlt: "n < length rs" using q(1) Suc by simp
    have tk: "take q rs = xs @ [r]"
      using Suc nlt by (simp add: xs_def r_def take_Suc_conv_app_nth)
    have rs: "rs = xs @ r # ys"
      using tk append_take_drop_id [of q rs] by (simp add: ys_def)
    have len: "length xs = n" using nlt by (simp add: xs_def)
    have okx: "store_ok (xs @ [r])" and oky: "store_ok ys"
      using ok store_ok_parts [of "xs @ [r]" ys] rs by simp_all
    have fr: "range_fits r" using okx by (simp add: store_ok_def)
    have le: "unat (location r) \<le> unat (location rng)"
      using q(3) Suc by (simp add: r_def)
    have ins: "insert_range rs rng = (xs @ r # rng # ys, Suc (length xs))"
      using q(2) tk Suc len by (simp add: ys_def)
    note step = coalesce_preceding_step [OF okx fits le, of ys]
    consider (apart) "range_end r < unat (location rng)"
      | (inside) "\<not> range_end r < unat (location rng)" "range_end rng \<le> range_end r"
      | (extend) "\<not> range_end r < unat (location rng)" "\<not> range_end rng \<le> range_end r"
      by blast
    then show ?thesis
    proof cases
      case apart
      have "add_range_ranges rs rng
          = coalesce_following ((xs @ [r]) @ rng # ys) rng (length (xs @ [r]))"
        using ins step apart by (simp add: add_range_ranges_def)
      also have "store_ok \<dots>"
      proof (rule coalesce_following_store_ok [OF fits])
        show "store_ok ((xs @ [r]) @ [rng])"
          using store_ok_join [OF okx single apart] by simp
      qed (simp_all add: oky)
      finally show ?thesis .
    next
      case inside
      have "add_range_ranges rs rng = coalesce_following (xs @ r # ys) rng (length xs)"
        using ins step inside by (simp add: add_range_ranges_def)
      also have "store_ok \<dots>"
      proof (rule coalesce_following_store_ok [OF fits okx oky])
        show "range_end r = range_end rng \<or>
          (range_end rng < range_end r \<and> (ys \<noteq> [] \<longrightarrow> range_end r < unat (location (hd ys))))"
          using inside(2) store_ok_Cons_hd [of xs r ys] ok rs by auto
      qed
      finally show ?thesis .
    next
      case extend
      let ?r = "r\<lparr>length' := length' r + (g_range_get_max rng - g_range_get_max r)\<rparr>"
      have "range_end rng < 2 ^ 32"
        using fits by (simp add: range_fits_def)
      then have e: "range_end ?r = range_end rng"
        using extend_range_end [OF fr fits fr] extend(2) by simp
      then have "range_fits ?r" "0 < length' ?r"
        using fits extend location_le_range_end [of r] length_positive [of ?r]
        by (simp_all add: range_fits_def)
      then have okr: "store_ok (xs @ [?r])"
        using store_ok_replace_last [OF okx, of ?r] by simp
      have "add_range_ranges rs rng = coalesce_following (xs @ ?r # ys) rng (length xs)"
        using ins step extend by (simp add: add_range_ranges_def)
      also have "store_ok \<dots>"
        using e by (intro coalesce_following_store_ok [OF fits okr oky]) simp
      finally show ?thesis .
    qed
  qed
qed


lemma ensure_ranges_loop_ok:
  "store_ok rs \<Longrightarrow> (\<forall>r\<in>set rs. unat last_max < unat (location r)) \<Longrightarrow>
   ensure_ranges_loop rs i last_max"
proof (induction rs arbitrary: i last_max)
  case Nil
  then show ?case by simp
next
  case (Cons r rs)
  have fr: "range_fits r" and pr: "0 < length' r"
    using Cons.prems(1) by (simp_all add: store_ok_def store_invariant_def)
  have "unat (location r) < range_end r"
    using pr by (simp add: range_end_def word_greater_zero_iff unat_gt_0)
  then have nonempty: "g_range_get_max r > location r"
    using fr by (simp add: word_less_nat_alt get_max_unat)
  have "ensure_ranges_loop rs (i + 1) (g_range_get_max r)"
  proof (rule Cons.IH)
    show "store_ok rs"
      using Cons.prems(1) store_ok_parts [of "[r]" rs] by simp
    show "\<forall>x\<in>set rs. unat (g_range_get_max r) < unat (location x)"
      using Cons.prems(1) fr by (simp add: get_max_unat store_ok_def store_invariant_def)
  qed
  then show ?case
    using Cons.prems(2) nonempty by (simp add: word_less_nat_alt word_le_nat_alt)
qed

lemma ensure_ranges_ok:
  assumes "store_ok rs"
  shows "g_index_set_ensure_ranges rs"
proof (cases rs)
  case Nil
  then show ?thesis by (simp add: g_index_set_ensure_ranges_def)
next
  case (Cons r rest)
  have fr: "range_fits r" and pr: "0 < length' r"
    using assms Cons by (simp_all add: store_ok_def store_invariant_def)
  have "unat (location r) < range_end r"
    using pr by (simp add: range_end_def word_greater_zero_iff unat_gt_0)
  then have nonempty: "g_range_get_max r > location r"
    using fr by (simp add: word_less_nat_alt get_max_unat)
  have "ensure_ranges_loop rest 1 (g_range_get_max r)"
  proof (rule ensure_ranges_loop_ok)
    show "store_ok rest"
      using assms Cons store_ok_parts [of "[r]" rest] by simp
    show "\<forall>x\<in>set rest. unat (g_range_get_max r) < unat (location x)"
      using assms Cons fr by (simp add: get_max_unat store_ok_def store_invariant_def)
  qed
  then show ?thesis
    using Cons nonempty by (simp add: g_index_set_ensure_ranges_def)
qed

lemma add_range_internal_ok:
  assumes "ranges index_set = Some rs" "store_ok rs" "range_in_bounds rng"
  shows "\<exists>index_set' rs'.
     g_index_set_add_range_internal disable_assert index_set rng = Inr index_set' \<and>
     is_mutable index_set' = is_mutable index_set \<and>
     ranges index_set' = Some rs' \<and> store_ok rs'"
proof (cases "length' rng = 0")
  case True
  then show ?thesis
    using assms by (simp add: g_index_set_add_range_internal_def)
next
  case False
  then have "range_fits rng" "0 < length' rng"
    using assms(3) by (simp_all add: range_in_bounds_def word_greater_zero_iff)
  then have ok: "store_ok (add_range_ranges rs rng)"
    using add_range_ranges_store_ok [OF assms(2)] by simp
  then show ?thesis
    using False assms(1) ensure_ranges_ok [OF ok]
    by (simp add: g_index_set_add_range_internal_def)
qed

lemma add_ranges_loop_ok:
  "ranges index_set = Some rs \<Longrightarrow> store_ok rs \<Longrightarrow> list_all range_in_bounds new \<Longrightarrow>
   \<exists>index_set' rs'.
     add_ranges_loop disable_assert index_set new = Inr index_set' \<and>
     is_mutable index_set' = is_mutable index_set \<and>
     ranges index_set' = Some rs' \<and> store_ok rs'"
proof (induction new arbitrary: index_set rs)
  case Nil
  then show ?case by simp
next
  case (Cons rng new)
  obtain s1 rs1 where s1:
      "g_index_set_add_range_internal disable_assert index_set rng = Inr s1"
      "is_mutable s1 = is_mutable index_set" "ranges s1 = Some rs1" "store_ok rs1"
    using add_range_internal_ok [where disable_assert = disable_assert and rng = rng,
        OF Cons.prems(1,2)] Cons.prems(3)
    by auto
  obtain s2 rs2 where
      "add_ranges_loop disable_assert s1 new = Inr s2"
      "is_mutable s2 = is_mutable s1" "ranges s2 = Some rs2" "store_ok rs2"
    using Cons.IH [OF s1(3,4)] Cons.prems(3) by auto
  then show ?case using s1 by simp
qed

lemma apply_mutation_ok:
  assumes "is_mutable index_set" "ranges index_set = Some rs" "store_ok rs"
    and "mutation_in_bounds m"
  shows "\<exists>index_set' rs'.
     apply_mutation disable_assert index_set m = Inr index_set' \<and>
     is_mutable index_set' \<and> ranges index_set' = Some rs' \<and> store_ok rs'"
proof (cases m)
  case (Add_Index idx)
  then show ?thesis
    using add_range_internal_ok [where disable_assert = disable_assert
        and rng = "g_range_init idx 1", OF assms(2,3)] assms(1,4)
    by (auto simp: g_index_set_add_index_def g_index_set_is_mutable_def range_in_bounds_def)
next
  case (Add_Indices indices)
  have "list_all range_in_bounds (map (\<lambda>idx. g_range_init idx 1) indices)"
    using assms(4) Add_Indices by (simp add: list_all_iff range_in_bounds_def)
  then show ?thesis
    using add_ranges_loop_ok [where disable_assert = disable_assert, OF assms(2,3)]
        assms(1) Add_Indices
    by (auto simp: g_index_set_add_indicesv_def g_index_set_is_mutable_def)
next
  case (Add_Range rng)
  then show ?thesis
    using add_range_internal_ok [where disable_assert = disable_assert and rng = rng,
        OF assms(2,3)] assms(1,4)
    by (auto simp: g_index_set_add_range_def g_index_set_is_mutable_def)
next
  case (Add_Set set_arg)
  then obtain other where other: "set_arg = Other_Set other"
    using assms(4) by (cases set_arg) simp_all
  show ?thesis
  proof (cases "ranges other")
    case None
    then show ?thesis
      using assms Add_Set other
      by (simp add: g_index_set_add_set_def g_index_set_is_mutable_def)
  next
    case (Some new)
    then have "list_all range_in_bounds new"
      using assms(4) Add_Set other by simp
    then show ?thesis
      using add_ranges_loop_ok [where disable_assert = disable_assert and new = new,
          OF assms(2,3)] assms(1) Add_Set other Some
      by (auto simp: g_index_set_add_set_def g_index_set_is_mutable_def)
  qed
next
  case (Remove_Index idx)
  then show ?thesis
    using assms by (simp add: g_index_set_remove_index_def g_index_set_remove_range_unchanged)
qed

lemma run_mutations_ok:
  "is_mutable index_set \<Longrightarrow> ranges index_set = Some rs \<Longrightarrow> store_ok rs \<Longrightarrow>
   list_all mutation_in_bounds ms \<Longrightarrow>
   \<exists>index_set' rs'.
     run_mutations disable_assert index_set ms = Inr index_set' \<and>
     is_mutable index_set' \<and> ranges index_set' = Some rs' \<and> store_ok rs'"
proof (induction ms arbitrary: index_set rs)
  case Nil
  then show ?case by simp
next
  case (Cons m ms)
  obtain s1 rs1 where s1: "apply_mutation disable_assert index_set m = Inr s1"
      "is_mutable s1" "ranges s1 = Some rs1" "store_ok rs1"
    using apply_mutation_ok [where disable_assert = disable_assert and m = m,
        OF Cons.prems(1,2,3)] Cons.prems(4)
    by auto
  obtain s2 rs2 where "run_mutations disable_assert s1 ms = Inr s2"
      "is_mutable s2" "ranges s2 = Some rs2" "store_ok rs2"
    using Cons.IH [OF s1(2,3,4)] Cons.prems(4) by auto
  then show ?case using s1 by simp
qed

text \<open>
  Where no upper bound wraps (\<open>location + length\<close> stays a \<open>guint\<close>) and every added
  set is another object, the invariant is kept: from a freshly initialized set, after
  every call (after the first \<open>n\<close> calls, for every \<open>n\<close>) all calls so far have returned
  normally, the stored ranges satisfy the invariant, and the consistency check of the
  source holds; this is so with the check compiled in and without it.
\<close>

lemma mutations_keep_store_invariant:
  assumes "list_all mutation_in_bounds ms"
  shows "\<exists>index_set rs.
     run_mutations disable_assert (g_index_set_init g_index_set_alloc) (take n ms) = Inr index_set \<and>
     ranges index_set = Some rs \<and> store_invariant rs \<and> g_index_set_ensure_ranges rs"
proof -
  have "list_all mutation_in_bounds (take n ms)"
    using assms by (auto simp: list_all_iff dest: in_set_takeD)
  moreover have "store_ok []"
    by (simp add: store_ok_def store_invariant_def)
  ultimately obtain index_set rs where
      "run_mutations disable_assert (g_index_set_init g_index_set_alloc) (take n ms) = Inr index_set"
      "ranges index_set = Some rs" "store_ok rs"
    using run_mutations_ok [of "g_index_set_init g_index_set_alloc" "[]" "take n ms" disable_assert]
    by (auto simp: g_index_set_init_def g_index_set_clear_ranges_def g_index_set_alloc_def)
  then show ?thesis
    using ensure_ranges_ok [of rs] by (auto simp: store_ok_def)
qed

lemma mutations_keep_store_invariant_example:
  "list_all mutation_in_bounds
     [Add_Index 5, Add_Range (g_range_init 0 3), Remove_Index 1, Add_Indices [7, 6],
      Add_Set (Other_Set
        \<lparr>ref_count = 1, ranges = Some [g_range_init 2 4], is_mutable = False\<rparr>)] \<and>
   (\<exists>index_set rs.
     run_mutations False (g_index_set_init g_index_set_alloc)
       (take 5 [Add_Index 5, Add_Range (g_range_init 0 3), Remove_Index 1, Add_Indices [7, 6],
          Add_Set (Other_Set
            \<lparr>ref_count = 1, ranges = Some [g_range_init 2 4], is_mutable = False\<rparr>)])
       = Inr index_set \<and>
     ranges index_set = Some rs \<and> store_invariant rs \<and> g_index_set_ensure_ranges rs)"
proof -
  have h: "list_all mutation_in_bounds
     [Add_Index 5, Add_Range (g_range_init 0 3), Remove_Index 1, Add_Indices [7, 6],
      Add_Set (Other_Set
        \<lparr>ref_count = 1, ranges = Some [g_range_init 2 4], is_mutable = False\<rparr>)]"
    by (simp add: range_fits_def range_end_def range_in_bounds_def g_range_init_def)
  show ?thesis
    using h mutations_keep_store_invariant [OF h, of False 5] by blast
qed


subsection \<open>Containment of a range\<close>

lemma get_position_Nil: "g_index_set_get_position [] idx = 0"
  by (simp add: g_index_set_get_position_def position_search.simps skip_smaller.simps)

lemma contains_range_guarded:
  "length' rng \<noteq> 0 \<Longrightarrow>
   g_index_set_contains_range index_set rng \<longleftrightarrow>
     \<not> location rng > G_INDEX_SET_NOT_FOUND - length' rng \<and>
     contains_range_at_position index_set rng"
  by (auto simp: g_index_set_contains_range_def contains_range_at_position_def Let_def
        get_position_Nil split: option.splits)

text \<open>
  C7, amended. For a range of length above 0, \<open>g_index_set_contains_range\<close> is true
  exactly when the range does not cross the sentinel (its location is at most
  \<open>G_INDEX_SET_NOT_FOUND - length\<close> in unsigned arithmetic) and the stored range at the
  resolved position of its location contains both its location and its last index. On
  the set initialized with [0,10): (0,5) is contained, (0,11) is not, (6,2) is, (8,4)
  is not.
\<close>

theorem contains_range_same_range_below_sentinel:
  "(length' rng \<noteq> 0 \<longrightarrow>
      (g_index_set_contains_range index_set rng \<longleftrightarrow>
         \<not> location rng > G_INDEX_SET_NOT_FOUND - length' rng \<and>
         contains_range_at_position index_set rng)) \<and>
   g_index_set_init_with_range False g_index_set_alloc (g_range_init 0 10)
     = Inr \<lparr>ref_count = 1, ranges = Some [\<lparr>location = 0, length' = 10\<rparr>], is_mutable = False\<rparr> \<and>
   g_index_set_contains_range
     \<lparr>ref_count = 1, ranges = Some [\<lparr>location = 0, length' = 10\<rparr>], is_mutable = False\<rparr>
     (g_range_init 0 5) \<and>
   \<not> g_index_set_contains_range
     \<lparr>ref_count = 1, ranges = Some [\<lparr>location = 0, length' = 10\<rparr>], is_mutable = False\<rparr>
     (g_range_init 0 11) \<and>
   g_index_set_contains_range
     \<lparr>ref_count = 1, ranges = Some [\<lparr>location = 0, length' = 10\<rparr>], is_mutable = False\<rparr>
     (g_range_init 6 2) \<and>
   \<not> g_index_set_contains_range
     \<lparr>ref_count = 1, ranges = Some [\<lparr>location = 0, length' = 10\<rparr>], is_mutable = False\<rparr>
     (g_range_init 8 4)"
proof (intro conjI impI)
  show "g_index_set_contains_range index_set rng \<longleftrightarrow>
     \<not> location rng > G_INDEX_SET_NOT_FOUND - length' rng \<and>
     contains_range_at_position index_set rng" if "length' rng \<noteq> 0"
    using that by (rule contains_range_guarded)
qed code_simp+

theorem contains_range_same_range_below_sentinel_witness:
  "length' (g_range_init 6 2) \<noteq> 0 \<and>
   g_index_set_contains_range
     \<lparr>ref_count = 1, ranges = Some [\<lparr>location = 0, length' = 10\<rparr>], is_mutable = False\<rparr>
     (g_range_init 6 2) \<and>
   \<not> location (g_range_init 6 2) > G_INDEX_SET_NOT_FOUND - length' (g_range_init 6 2) \<and>
   contains_range_at_position
     \<lparr>ref_count = 1, ranges = Some [\<lparr>location = 0, length' = 10\<rparr>], is_mutable = False\<rparr>
     (g_range_init 6 2)"
proof -
  have h: "length' (g_range_init 6 2) \<noteq> 0"
    by (simp add: g_range_init_def)
  have c: "g_index_set_contains_range
     \<lparr>ref_count = 1, ranges = Some [\<lparr>location = 0, length' = 10\<rparr>], is_mutable = False\<rparr>
     (g_range_init 6 2)"
    using contains_range_same_range_below_sentinel by blast
  show ?thesis
    using h c contains_range_same_range_below_sentinel
      [of "g_range_init 6 2"
          "\<lparr>ref_count = 1, ranges = Some [\<lparr>location = 0, length' = 10\<rparr>], is_mutable = False\<rparr>"]
    by blast
qed

text \<open>
  C7 as stated fails for a range that crosses the sentinel: the set initialized with
  the range of location \<open>0x80000000\<close> and length 4 holds a single range that contains the
  location and the last index of the query range of location \<open>0x80000000\<close> and length
  2, and \<open>g_index_set_contains_range\<close> returns false.
\<close>

theorem contains_range_counterexample:
  "g_index_set_init_with_range False g_index_set_alloc (g_range_init 0x80000000 4)
     = Inr \<lparr>ref_count = 1, ranges = Some [\<lparr>location = 0x80000000, length' = 4\<rparr>],
             is_mutable = False\<rparr> \<and>
   0 < length' (g_range_init 0x80000000 2) \<and>
   contains_range_at_position
     \<lparr>ref_count = 1, ranges = Some [\<lparr>location = 0x80000000, length' = 4\<rparr>], is_mutable = False\<rparr>
     (g_range_init 0x80000000 2) \<and>
   \<not> g_index_set_contains_range
     \<lparr>ref_count = 1, ranges = Some [\<lparr>location = 0x80000000, length' = 4\<rparr>], is_mutable = False\<rparr>
     (g_range_init 0x80000000 2)"
  by code_simp

subsection \<open>The sentinel\<close>

lemma contains_range_crossing_sentinel:
  assumes "0 < length' rng" "length' rng \<le> G_INDEX_SET_NOT_FOUND"
    and "unat (location rng) + unat (length' rng) > unat G_INDEX_SET_NOT_FOUND"
  shows "\<not> g_index_set_contains_range index_set rng"
proof -
  have "unat (G_INDEX_SET_NOT_FOUND - length' rng) = unat G_INDEX_SET_NOT_FOUND - unat (length' rng)"
    using assms(2) by (rule unat_sub)
  moreover have "unat (length' rng) \<le> unat G_INDEX_SET_NOT_FOUND"
    using assms(2) by (simp add: word_le_nat_alt)
  ultimately have "location rng > G_INDEX_SET_NOT_FOUND - length' rng"
    using assms(3) by (simp add: word_less_nat_alt)
  then show ?thesis
    using assms(1) by (simp add: g_index_set_contains_range_def)
qed

lemma get_index_greater_than_sentinel:
  "idx + 1 = G_INDEX_SET_NOT_FOUND \<Longrightarrow>
   g_index_set_get_index index_set G_INDEX_SET_PREDICATE_GREATER_THAN idx = G_INDEX_SET_NOT_FOUND"
  by (simp add: g_index_set_get_index_def split: option.split)

lemma get_index_greater_than_or_equal_sentinel:
  "g_index_set_get_index index_set G_INDEX_SET_PREDICATE_GREATER_THAN_OR_EQUAL
     G_INDEX_SET_NOT_FOUND = G_INDEX_SET_NOT_FOUND"
  by (simp add: g_index_set_get_index_def get_index_greater_than_or_equal_def split: option.split)

text \<open>
  C5, amended. The sentinel is \<open>G_MAXINT\<close>, \<open>0x7FFFFFFF\<close>. The queries guard it:
  the nearest index strictly above \<open>idx\<close> is "not found" when \<open>idx + 1\<close> is the
  sentinel, the nearest index at or above the sentinel is "not found", and a range of
  length between 1 and the sentinel whose upper bound \<open>location + length\<close> exceeds the
  sentinel is reported as not contained, whatever the set holds.
\<close>

theorem sentinel_guarded_by_queries:
  "G_INDEX_SET_NOT_FOUND = 0x7FFFFFFF \<and>
   (idx + 1 = G_INDEX_SET_NOT_FOUND \<longrightarrow>
      g_index_set_get_index index_set G_INDEX_SET_PREDICATE_GREATER_THAN idx
        = G_INDEX_SET_NOT_FOUND) \<and>
   g_index_set_get_index index_set G_INDEX_SET_PREDICATE_GREATER_THAN_OR_EQUAL
     G_INDEX_SET_NOT_FOUND = G_INDEX_SET_NOT_FOUND \<and>
   (0 < length' rng \<and> length' rng \<le> G_INDEX_SET_NOT_FOUND \<and>
    unat (location rng) + unat (length' rng) > unat G_INDEX_SET_NOT_FOUND \<longrightarrow>
      \<not> g_index_set_contains_range index_set rng)"
  using get_index_greater_than_sentinel [of idx index_set]
    get_index_greater_than_or_equal_sentinel [of index_set]
    contains_range_crossing_sentinel [of rng index_set]
  by (simp add: G_INDEX_SET_NOT_FOUND_def G_MAXINT_def)

theorem sentinel_guarded_by_queries_witness:
  "(0x7FFFFFFE :: guint) + 1 = G_INDEX_SET_NOT_FOUND \<and>
   g_index_set_get_index
     \<lparr>ref_count = 1, ranges = Some [\<lparr>location = 0, length' = 10\<rparr>], is_mutable = False\<rparr>
     G_INDEX_SET_PREDICATE_GREATER_THAN 0x7FFFFFFE = G_INDEX_SET_NOT_FOUND \<and>
   0 < length' (g_range_init 0x7FFFFFF0 0x10) \<and>
   length' (g_range_init 0x7FFFFFF0 0x10) \<le> G_INDEX_SET_NOT_FOUND \<and>
   unat (location (g_range_init 0x7FFFFFF0 0x10)) + unat (length' (g_range_init 0x7FFFFFF0 0x10))
     > unat G_INDEX_SET_NOT_FOUND \<and>
   \<not> g_index_set_contains_range
     \<lparr>ref_count = 1, ranges = Some [\<lparr>location = 0x7FFFFFF0, length' = 0x10\<rparr>], is_mutable = False\<rparr>
     (g_range_init 0x7FFFFFF0 0x10)"
proof -
  have h1: "(0x7FFFFFFE :: guint) + 1 = G_INDEX_SET_NOT_FOUND"
    by (simp add: G_INDEX_SET_NOT_FOUND_def G_MAXINT_def)
  have h2: "0 < length' (g_range_init 0x7FFFFFF0 0x10) \<and>
      length' (g_range_init 0x7FFFFFF0 0x10) \<le> G_INDEX_SET_NOT_FOUND \<and>
      unat (location (g_range_init 0x7FFFFFF0 0x10)) + unat (length' (g_range_init 0x7FFFFFF0 0x10))
        > unat G_INDEX_SET_NOT_FOUND"
    by (simp add: G_INDEX_SET_NOT_FOUND_def G_MAXINT_def g_range_init_def)
  show ?thesis
    using h1 h2
      sentinel_guarded_by_queries [of "0x7FFFFFFE"
        "\<lparr>ref_count = 1, ranges = Some [\<lparr>location = 0, length' = 10\<rparr>], is_mutable = False\<rparr>"]
      sentinel_guarded_by_queries [of _
        "\<lparr>ref_count = 1, ranges = Some [\<lparr>location = 0x7FFFFFF0, length' = 0x10\<rparr>], is_mutable = False\<rparr>"
        "g_range_init 0x7FFFFFF0 0x10"]
    by blast
qed

text \<open>
  C5 as stated fails: the sentinel is below the largest \<open>guint\<close>; adding the sentinel
  as an index to an empty mutable set stores it, and the set then contains it; and the
  range of location 0 and length \<open>0x80000000\<close>, whose last index is the sentinel, is
  reported as contained in the set that holds it.
\<close>

theorem sentinel_counterexample:
  "G_INDEX_SET_NOT_FOUND < 0xFFFFFFFF \<and>
   run_mutations False (g_index_set_init g_index_set_alloc) [Add_Index G_INDEX_SET_NOT_FOUND]
     = Inr \<lparr>ref_count = 1, ranges = Some [\<lparr>location = G_INDEX_SET_NOT_FOUND, length' = 1\<rparr>],
             is_mutable = True\<rparr> \<and>
   g_index_set_contains_index
     \<lparr>ref_count = 1, ranges = Some [\<lparr>location = G_INDEX_SET_NOT_FOUND, length' = 1\<rparr>],
      is_mutable = True\<rparr> G_INDEX_SET_NOT_FOUND \<and>
   g_index_set_contains_range
     \<lparr>ref_count = 1, ranges = Some [\<lparr>location = 0, length' = 0x80000000\<rparr>], is_mutable = False\<rparr>
     (g_range_init 0 0x80000000)"
  by code_simp

subsection \<open>The nearest index\<close>

lemma position_of_member:
  assumes ok: "store_ok rs" and p: "p < length rs"
    and lo: "unat (location (rs ! p)) \<le> unat k" and hi: "unat k < range_end (rs ! p)"
  shows "g_index_set_get_position rs k = p"
proof -
  let ?n = "length (takeWhile (\<lambda>r. range_end r \<le> unat k) rs)"
  have "range_end (rs ! i) \<le> unat k" if "i < p" for i
    using store_ok_nth_less [OF ok that p] lo by simp
  then have "p \<le> ?n"
    using p by (intro length_takeWhile_less_P_nth) auto
  moreover have "\<not> p < ?n"
    using before_position [of p k rs] hi by auto
  ultimately show ?thesis
    using get_position_takeWhile [OF ok, of k] by simp
qed

lemma contains_index_iff_stored:
  assumes "ranges index_set = Some rs" "store_ok rs"
  shows "g_index_set_contains_index index_set k \<longleftrightarrow> (\<exists>r\<in>set rs. g_range_contains_location r k)"
proof
  assume "g_index_set_contains_index index_set k"
  then show "\<exists>r\<in>set rs. g_range_contains_location r k"
    using assms(1)
    by (auto simp: g_index_set_contains_index_def Let_def split: if_splits)
next
  assume "\<exists>r\<in>set rs. g_range_contains_location r k"
  then obtain p where p: "p < length rs" "g_range_contains_location (rs ! p) k"
    by (auto simp: in_set_conv_nth)
  then have "unat (location (rs ! p)) \<le> unat k \<and> unat k < range_end (rs ! p)"
    using store_ok_nth [OF assms(2) p(1)] by (simp add: contains_location_iff)
  then have "g_index_set_get_position rs k = p"
    using position_of_member [OF assms(2) p(1)] by simp
  then show "g_index_set_contains_index index_set k"
    using assms(1) p by (auto simp: g_index_set_contains_index_def)
qed

lemma location_contained:
  "store_ok rs \<Longrightarrow> p < length rs \<Longrightarrow> g_range_contains_location (rs ! p) (location (rs ! p))"
proof -
  assume ok: "store_ok rs" and p: "p < length rs"
  then have f: "range_fits (rs ! p)" "0 < length' (rs ! p)"
    using store_ok_nth by simp_all
  then have "unat (location (rs ! p)) < range_end (rs ! p)"
    by (simp add: range_end_def word_greater_zero_iff unat_gt_0)
  then show ?thesis
    using f by (simp add: contains_location_iff)
qed

lemma greater_than_or_equal_none:
  assumes "ranges index_set = Some rs" "store_ok rs"
    and none: "\<forall>k. g_index_set_contains_index index_set k \<longrightarrow> k < idx"
  shows "get_index_greater_than_or_equal rs idx = G_INDEX_SET_NOT_FOUND"
proof (rule ccontr)
  assume neq: "get_index_greater_than_or_equal rs idx \<noteq> G_INDEX_SET_NOT_FOUND"
  let ?p = "g_index_set_get_position rs idx"
  have p: "?p < length rs"
    using neq by (auto simp: get_index_greater_than_or_equal_def Let_def split: if_splits)
  have f: "range_fits (rs ! ?p)"
    using store_ok_nth [OF assms(2) p] by simp
  have above: "unat idx < range_end (rs ! ?p)"
    using at_position [of idx rs] p get_position_takeWhile [OF assms(2), of idx] by simp
  define k where "k = (if location (rs ! ?p) \<le> idx then idx else location (rs ! ?p))"
  have "g_range_contains_location (rs ! ?p) k"
    using above f location_contained [OF assms(2) p]
    by (simp add: k_def contains_location_iff word_le_nat_alt)
  then have "g_index_set_contains_index index_set k"
    using contains_index_iff_stored [OF assms(1,2)] p by auto
  then have "k < idx" using none by blast
  then show False by (auto simp: k_def split: if_splits)
qed

lemma less_than_or_equal_none:
  assumes "ranges index_set = Some rs" "store_ok rs"
    and none: "\<forall>k. g_index_set_contains_index index_set k \<longrightarrow> idx < k"
  shows "get_index_less_than_or_equal rs idx = G_INDEX_SET_NOT_FOUND"
proof (rule ccontr)
  assume neq: "get_index_less_than_or_equal rs idx \<noteq> G_INDEX_SET_NOT_FOUND"
  let ?p = "g_index_set_get_position rs idx"
  have p: "?p < length rs"
    using neq by (auto simp: get_index_less_than_or_equal_def Let_def split: if_splits)
  have "\<not> g_range_contains_location (rs ! ?p) idx"
  proof
    assume "g_range_contains_location (rs ! ?p) idx"
    then have "g_index_set_contains_index index_set idx"
      using contains_index_iff_stored [OF assms(1,2)] p by auto
    then show False using none by auto
  qed
  then have pos: "0 < ?p"
    using neq p by (auto simp: get_index_less_than_or_equal_def Let_def split: if_splits)
  then have q: "?p - 1 < length rs" using p by simp
  have "range_end (rs ! (?p - 1)) \<le> unat idx"
    using before_position [of "?p - 1" idx rs] pos get_position_takeWhile [OF assms(2), of idx]
    by simp
  then have le: "unat (location (rs ! (?p - 1))) \<le> unat idx"
    using location_le_range_end [of "rs ! (?p - 1)"] by simp
  have "g_index_set_contains_index index_set (location (rs ! (?p - 1)))"
    using contains_index_iff_stored [OF assms(1,2)] location_contained [OF assms(2) q] q by auto
  then have "idx < location (rs ! (?p - 1))" using none by blast
  then show False using le by (simp add: word_less_nat_alt)
qed

lemma get_index_none:
  assumes "ranges index_set = Some rs" "store_ok rs"
  shows "(\<forall>k. g_index_set_contains_index index_set k \<longrightarrow> k < idx) \<Longrightarrow>
         g_index_set_get_index index_set G_INDEX_SET_PREDICATE_GREATER_THAN_OR_EQUAL idx
           = G_INDEX_SET_NOT_FOUND"
    and "idx + 1 \<noteq> 0 \<Longrightarrow> (\<forall>k. g_index_set_contains_index index_set k \<longrightarrow> k \<le> idx) \<Longrightarrow>
         g_index_set_get_index index_set G_INDEX_SET_PREDICATE_GREATER_THAN idx
           = G_INDEX_SET_NOT_FOUND"
    and "(\<forall>k. g_index_set_contains_index index_set k \<longrightarrow> idx < k) \<Longrightarrow>
         g_index_set_get_index index_set G_INDEX_SET_PREDICATE_LESS_THAN_OR_EQUAL idx
           = G_INDEX_SET_NOT_FOUND"
    and "(\<forall>k. g_index_set_contains_index index_set k \<longrightarrow> idx \<le> k) \<Longrightarrow>
         g_index_set_get_index index_set G_INDEX_SET_PREDICATE_LESS_THAN idx
           = G_INDEX_SET_NOT_FOUND"
proof -
  show "g_index_set_get_index index_set G_INDEX_SET_PREDICATE_GREATER_THAN_OR_EQUAL idx
      = G_INDEX_SET_NOT_FOUND"
    if "\<forall>k. g_index_set_contains_index index_set k \<longrightarrow> k < idx"
    using greater_than_or_equal_none [OF assms that] assms(1)
    by (simp add: g_index_set_get_index_def)
  show "g_index_set_get_index index_set G_INDEX_SET_PREDICATE_GREATER_THAN idx
      = G_INDEX_SET_NOT_FOUND"
    if nz: "idx + 1 \<noteq> 0" and a: "\<forall>k. g_index_set_contains_index index_set k \<longrightarrow> k \<le> idx"
  proof -
    have "k < idx + 1" if "k \<le> idx" for k
      using that nz by unat_arith
    then have "\<forall>k. g_index_set_contains_index index_set k \<longrightarrow> k < idx + 1"
      using a by blast
    then show ?thesis
      using greater_than_or_equal_none [OF assms, of "idx + 1"] assms(1)
      by (simp add: g_index_set_get_index_def)
  qed
  show "g_index_set_get_index index_set G_INDEX_SET_PREDICATE_LESS_THAN_OR_EQUAL idx
      = G_INDEX_SET_NOT_FOUND"
    if "\<forall>k. g_index_set_contains_index index_set k \<longrightarrow> idx < k"
    using less_than_or_equal_none [OF assms that] assms(1)
    by (simp add: g_index_set_get_index_def)
  show "g_index_set_get_index index_set G_INDEX_SET_PREDICATE_LESS_THAN idx
      = G_INDEX_SET_NOT_FOUND"
    if a: "\<forall>k. g_index_set_contains_index index_set k \<longrightarrow> idx \<le> k"
  proof (cases "idx = 0")
    case True
    then show ?thesis by (simp add: g_index_set_get_index_def split: option.split)
  next
    case False
    have "idx - 1 < k" if "idx \<le> k" for k
      using that False by unat_arith
    then have "\<forall>k. g_index_set_contains_index index_set k \<longrightarrow> idx - 1 < k"
      using a by blast
    then show ?thesis
      using less_than_or_equal_none [OF assms, of "idx - 1"] assms(1) False
      by (simp add: g_index_set_get_index_def)
  qed
qed

lemma get_index_operational:
  "g_index_set_get_index index_set G_INDEX_SET_PREDICATE_GREATER_THAN idx
     = g_index_set_get_index index_set G_INDEX_SET_PREDICATE_GREATER_THAN_OR_EQUAL (idx + 1)"
  "ranges index_set = Some rs \<Longrightarrow> rs \<noteq> [] \<Longrightarrow>
   g_index_set_get_index index_set G_INDEX_SET_PREDICATE_GREATER_THAN_OR_EQUAL idx
     = (if idx = G_INDEX_SET_NOT_FOUND then G_INDEX_SET_NOT_FOUND else nearest_at_or_after rs idx)"
  "g_index_set_get_index index_set G_INDEX_SET_PREDICATE_LESS_THAN idx
     = (if idx = 0 then G_INDEX_SET_NOT_FOUND
        else g_index_set_get_index index_set G_INDEX_SET_PREDICATE_LESS_THAN_OR_EQUAL (idx - 1))"
  "ranges index_set = Some rs \<Longrightarrow> g_index_set_get_position rs idx < length rs \<Longrightarrow>
   g_index_set_get_index index_set G_INDEX_SET_PREDICATE_LESS_THAN_OR_EQUAL idx
     = nearest_at_or_before rs idx"
  "ranges index_set = None \<or> ranges index_set = Some [] \<Longrightarrow>
   g_index_set_get_index index_set predicate idx = G_INDEX_SET_NOT_FOUND"
  by (auto simp: g_index_set_get_index_def get_index_greater_than_or_equal_def
        get_index_less_than_or_equal_def nearest_at_or_after_def nearest_at_or_before_def
        Let_def split: option.splits)

text \<open>
  C8, amended. For every index set and index: strictly-greater is greater-or-equal at
  \<open>idx + 1\<close>, and "not found" when \<open>idx + 1\<close> is the sentinel; greater-or-equal on a
  non-empty set is "not found" at the sentinel and otherwise resolves the position and
  returns the index if the range there contains it, else the location of that range,
  else "not found"; strictly-less is "not found" at 0 and otherwise less-or-equal at
  \<open>idx - 1\<close>; less-or-equal, for a resolved position inside the array, returns the index
  if the range there contains it, else the last index of the range before, else "not
  found". On a set whose ranges satisfy the invariant, each predicate returns "not
  found" when no contained index satisfies it (for strictly-greater, when \<open>idx + 1\<close>
  does not wrap). On the set of 0, 2, 4, 6, 8: strictly-greater at 4 is 6, and
  strictly-less at 0 is "not found".
\<close>

theorem get_index_nearest:
  "g_index_set_get_index index_set G_INDEX_SET_PREDICATE_GREATER_THAN idx
     = g_index_set_get_index index_set G_INDEX_SET_PREDICATE_GREATER_THAN_OR_EQUAL (idx + 1) \<and>
   (idx + 1 = G_INDEX_SET_NOT_FOUND \<longrightarrow>
      g_index_set_get_index index_set G_INDEX_SET_PREDICATE_GREATER_THAN idx
        = G_INDEX_SET_NOT_FOUND) \<and>
   (ranges index_set = Some rs \<and> rs \<noteq> [] \<longrightarrow>
      g_index_set_get_index index_set G_INDEX_SET_PREDICATE_GREATER_THAN_OR_EQUAL idx
        = (if idx = G_INDEX_SET_NOT_FOUND then G_INDEX_SET_NOT_FOUND
           else nearest_at_or_after rs idx)) \<and>
   g_index_set_get_index index_set G_INDEX_SET_PREDICATE_LESS_THAN idx
     = (if idx = 0 then G_INDEX_SET_NOT_FOUND
        else g_index_set_get_index index_set G_INDEX_SET_PREDICATE_LESS_THAN_OR_EQUAL (idx - 1)) \<and>
   (ranges index_set = Some rs \<and> g_index_set_get_position rs idx < length rs \<longrightarrow>
      g_index_set_get_index index_set G_INDEX_SET_PREDICATE_LESS_THAN_OR_EQUAL idx
        = nearest_at_or_before rs idx) \<and>
   (ranges index_set = None \<or> ranges index_set = Some [] \<longrightarrow>
      g_index_set_get_index index_set predicate idx = G_INDEX_SET_NOT_FOUND) \<and>
   (ranges index_set = Some rs \<and> store_ok rs \<longrightarrow>
      ((\<forall>k. g_index_set_contains_index index_set k \<longrightarrow> k < idx) \<longrightarrow>
         g_index_set_get_index index_set G_INDEX_SET_PREDICATE_GREATER_THAN_OR_EQUAL idx
           = G_INDEX_SET_NOT_FOUND) \<and>
      (idx + 1 \<noteq> 0 \<and> (\<forall>k. g_index_set_contains_index index_set k \<longrightarrow> k \<le> idx) \<longrightarrow>
         g_index_set_get_index index_set G_INDEX_SET_PREDICATE_GREATER_THAN idx
           = G_INDEX_SET_NOT_FOUND) \<and>
      ((\<forall>k. g_index_set_contains_index index_set k \<longrightarrow> idx < k) \<longrightarrow>
         g_index_set_get_index index_set G_INDEX_SET_PREDICATE_LESS_THAN_OR_EQUAL idx
           = G_INDEX_SET_NOT_FOUND) \<and>
      ((\<forall>k. g_index_set_contains_index index_set k \<longrightarrow> idx \<le> k) \<longrightarrow>
         g_index_set_get_index index_set G_INDEX_SET_PREDICATE_LESS_THAN idx
           = G_INDEX_SET_NOT_FOUND)) \<and>
   map_sum id (\<lambda>evens.
       (g_index_set_get_index evens G_INDEX_SET_PREDICATE_GREATER_THAN 4,
        g_index_set_get_index evens G_INDEX_SET_PREDICATE_LESS_THAN 0))
     (g_index_set_init_with_indicesv False g_index_set_alloc [0, 2, 4, 6, 8])
     = Inr (6, G_INDEX_SET_NOT_FOUND)"
proof -
  have concrete: "map_sum id (\<lambda>evens.
       (g_index_set_get_index evens G_INDEX_SET_PREDICATE_GREATER_THAN 4,
        g_index_set_get_index evens G_INDEX_SET_PREDICATE_LESS_THAN 0))
     (g_index_set_init_with_indicesv False g_index_set_alloc [0, 2, 4, 6, 8])
     = Inr (6, G_INDEX_SET_NOT_FOUND)"
    by code_simp
  let ?get = "g_index_set_get_index index_set"
  let ?in = "g_index_set_contains_index index_set"
  show ?thesis
  proof (intro conjI impI)
    show "?get G_INDEX_SET_PREDICATE_GREATER_THAN idx
        = ?get G_INDEX_SET_PREDICATE_GREATER_THAN_OR_EQUAL (idx + 1)"
      by (rule get_index_operational(1))
    show "?get G_INDEX_SET_PREDICATE_GREATER_THAN idx = G_INDEX_SET_NOT_FOUND"
      if "idx + 1 = G_INDEX_SET_NOT_FOUND"
      using that by (simp add: g_index_set_get_index_def split: option.split)
    show "?get G_INDEX_SET_PREDICATE_GREATER_THAN_OR_EQUAL idx
        = (if idx = G_INDEX_SET_NOT_FOUND then G_INDEX_SET_NOT_FOUND
           else nearest_at_or_after rs idx)"
      if "ranges index_set = Some rs \<and> rs \<noteq> []"
      using that by (intro get_index_operational(2)) simp_all
    show "?get G_INDEX_SET_PREDICATE_LESS_THAN idx
        = (if idx = 0 then G_INDEX_SET_NOT_FOUND
           else ?get G_INDEX_SET_PREDICATE_LESS_THAN_OR_EQUAL (idx - 1))"
      by (rule get_index_operational(3))
    show "?get G_INDEX_SET_PREDICATE_LESS_THAN_OR_EQUAL idx = nearest_at_or_before rs idx"
      if "ranges index_set = Some rs \<and> g_index_set_get_position rs idx < length rs"
      using that by (intro get_index_operational(4)) simp_all
    show "?get predicate idx = G_INDEX_SET_NOT_FOUND"
      if "ranges index_set = None \<or> ranges index_set = Some []"
      using that by (rule get_index_operational(5))
    show "?get G_INDEX_SET_PREDICATE_GREATER_THAN_OR_EQUAL idx = G_INDEX_SET_NOT_FOUND"
      if "ranges index_set = Some rs \<and> store_ok rs" "\<forall>k. ?in k \<longrightarrow> k < idx"
      using that by (intro get_index_none(1) [of index_set rs]) simp_all
    show "?get G_INDEX_SET_PREDICATE_GREATER_THAN idx = G_INDEX_SET_NOT_FOUND"
      if "ranges index_set = Some rs \<and> store_ok rs"
        "idx + 1 \<noteq> 0 \<and> (\<forall>k. ?in k \<longrightarrow> k \<le> idx)"
      using that by (intro get_index_none(2) [of index_set rs]) simp_all
    show "?get G_INDEX_SET_PREDICATE_LESS_THAN_OR_EQUAL idx = G_INDEX_SET_NOT_FOUND"
      if "ranges index_set = Some rs \<and> store_ok rs" "\<forall>k. ?in k \<longrightarrow> idx < k"
      using that by (intro get_index_none(3) [of index_set rs]) simp_all
    show "?get G_INDEX_SET_PREDICATE_LESS_THAN idx = G_INDEX_SET_NOT_FOUND"
      if "ranges index_set = Some rs \<and> store_ok rs" "\<forall>k. ?in k \<longrightarrow> idx \<le> k"
      using that by (intro get_index_none(4) [of index_set rs]) simp_all
  qed (rule concrete)
qed

theorem get_index_nearest_witness:
  "ranges \<lparr>ref_count = 1, ranges = Some [\<lparr>location = 0, length' = 10\<rparr>], is_mutable = False\<rparr>
     = Some [\<lparr>location = 0, length' = 10\<rparr>] \<and>
   store_ok [\<lparr>location = 0, length' = 10\<rparr>] \<and>
   \<not> (\<exists>k. g_index_set_contains_index
        \<lparr>ref_count = 1, ranges = Some [\<lparr>location = 0, length' = 10\<rparr>], is_mutable = False\<rparr> k \<and>
        \<not> k < 10) \<and>
   g_index_set_get_index
     \<lparr>ref_count = 1, ranges = Some [\<lparr>location = 0, length' = 10\<rparr>], is_mutable = False\<rparr>
     G_INDEX_SET_PREDICATE_GREATER_THAN_OR_EQUAL 10 = G_INDEX_SET_NOT_FOUND \<and>
   g_index_set_get_index
     \<lparr>ref_count = 1, ranges = Some [\<lparr>location = 0, length' = 10\<rparr>], is_mutable = False\<rparr>
     G_INDEX_SET_PREDICATE_GREATER_THAN_OR_EQUAL 10 = nearest_at_or_after [\<lparr>location = 0, length' = 10\<rparr>] 10"
proof -
  let ?s = "\<lparr>ref_count = 1, ranges = Some [\<lparr>location = 0, length' = 10\<rparr>], is_mutable = False\<rparr>"
  have ok: "store_ok [\<lparr>location = 0, length' = 10\<rparr>]"
    by (simp add: store_ok_def store_invariant_def range_fits_def range_end_def)
  have none: "\<forall>k. g_index_set_contains_index ?s k \<longrightarrow> k < 10"
    using contains_index_iff_stored [of ?s "[\<lparr>location = 0, length' = 10\<rparr>]"] ok
    by (simp add: g_range_contains_location_def)
  have nf: "(10 :: guint) \<noteq> G_INDEX_SET_NOT_FOUND"
    by (simp add: G_INDEX_SET_NOT_FOUND_def G_MAXINT_def)
  show ?thesis
    using ok none nf get_index_nearest [of ?s 10 "[\<lparr>location = 0, length' = 10\<rparr>]"]
    by auto
qed

text \<open>
  C8 as stated fails at the sentinel. The set initialized with the index
  \<open>0x80000000\<close> contains an index at or above \<open>0x7FFFFFFF\<close>, and the resolved position of
  \<open>0x7FFFFFFF\<close> holds a range that does not contain it, whose location \<open>0x80000000\<close> the
  wording returns; the source returns "not found" for greater-or-equal at \<open>0x7FFFFFFF\<close>
  and for strictly-greater at \<open>0x7FFFFFFE\<close>.
\<close>

theorem get_index_counterexample:
  "g_index_set_init_with_index g_index_set_alloc 0x80000000
     = \<lparr>ref_count = 1, ranges = Some [\<lparr>location = 0x80000000, length' = 1\<rparr>], is_mutable = False\<rparr> \<and>
   g_index_set_contains_index
     \<lparr>ref_count = 1, ranges = Some [\<lparr>location = 0x80000000, length' = 1\<rparr>], is_mutable = False\<rparr>
     0x80000000 \<and>
   (0x7FFFFFFF :: guint) \<le> 0x80000000 \<and>
   nearest_at_or_after [\<lparr>location = 0x80000000, length' = 1\<rparr>] 0x7FFFFFFF = 0x80000000 \<and>
   g_index_set_get_index
     \<lparr>ref_count = 1, ranges = Some [\<lparr>location = 0x80000000, length' = 1\<rparr>], is_mutable = False\<rparr>
     G_INDEX_SET_PREDICATE_GREATER_THAN_OR_EQUAL 0x7FFFFFFF = G_INDEX_SET_NOT_FOUND \<and>
   g_index_set_get_index
     \<lparr>ref_count = 1, ranges = Some [\<lparr>location = 0x80000000, length' = 1\<rparr>], is_mutable = False\<rparr>
     G_INDEX_SET_PREDICATE_GREATER_THAN 0x7FFFFFFE = G_INDEX_SET_NOT_FOUND \<and>
   G_INDEX_SET_NOT_FOUND \<noteq> 0x80000000"
  by code_simp

end
